theory Spec2Isabelle
  imports Main "HOL-Library.Multiset" "HOL-Library.Sublist"
begin

section \<open>The model\<close>

subsection \<open>Initiator pairs of a selected trace event\<close>

text \<open>
  The trace events are opaque host objects; the functions only compare them and use them
  as keys of the precomputed maps, so an event is a value of a type variable \<open>'e\<close>.
  A renderer node carries its entry and a pointer to its parent node. The trace parse
  data holds the maps \<open>Initiators.eventToInitiator\<close>, \<open>Initiators.initiatorToEvents\<close> and
  \<open>Renderer.entryToNode\<close>. The type guard \<open>isSyntheticTraceEntry\<close> lives in the trace
  engine's type module and is passed as a parameter.
\<close>

datatype 'e node = Node (entry: 'e) (parent: "'e node option")

record 'e TraceParseData =
  eventToInitiator :: "'e \<rightharpoonup> 'e"
  initiatorToEvents :: "'e \<rightharpoonup> 'e list"
  entryToNode :: "'e \<rightharpoonup> 'e node"

record 'e InitiatorPair =
  event :: 'e
  initiator :: 'e

text \<open>
  The \<open>while (currentEvent)\<close> loop of \<open>findEventInitiatorPairsPredecessors\<close>. The
  current event is \<open>None\<close> for \<open>null\<close>; \<open>pairs\<close> is the array built so far. The last
  argument is a ghost counter of the loop-body executions; the code has no such variable
  and no branch reads it. A walk that never ends is the value \<open>None\<close>.
\<close>

partial_function (option) predecessors_loop ::
  "('e \<Rightarrow> bool) \<Rightarrow> 'e TraceParseData \<Rightarrow> 'e option \<Rightarrow> 'e InitiatorPair list \<Rightarrow> nat
     \<Rightarrow> ('e InitiatorPair list \<times> nat) option"
where
  "predecessors_loop isSyntheticTraceEntry traceEngineData currentEvent pairs iters =
     (case currentEvent of
        None \<Rightarrow> Some (pairs, iters)
      | Some cur \<Rightarrow>
          (case eventToInitiator traceEngineData cur of
             Some currentInitiator \<Rightarrow>
               predecessors_loop isSyntheticTraceEntry traceEngineData (Some currentInitiator)
                 (pairs @ [\<lparr>event = cur, initiator = currentInitiator\<rparr>]) (Suc iters)
           | None \<Rightarrow>
               if \<not> isSyntheticTraceEntry cur then Some (pairs, Suc iters)
               else
                 (case entryToNode traceEngineData cur of
                    None \<Rightarrow> Some (pairs, Suc iters)
                  | Some nodeForCurrentEvent \<Rightarrow>
                      predecessors_loop isSyntheticTraceEntry traceEngineData
                        (map_option entry (parent nodeForCurrentEvent)) pairs (Suc iters))))"

definition findEventInitiatorPairsPredecessors ::
  "('e \<Rightarrow> bool) \<Rightarrow> 'e TraceParseData \<Rightarrow> 'e \<Rightarrow> 'e InitiatorPair list option"
where
  "findEventInitiatorPairsPredecessors isSyntheticTraceEntry traceEngineData selectedEvent =
     map_option fst
       (predecessors_loop isSyntheticTraceEntry traceEngineData (Some selectedEvent) [] 0)"

definition findEventInitiatorPairsDirectSuccessors ::
  "'e TraceParseData \<Rightarrow> 'e \<Rightarrow> 'e InitiatorPair list"
where
  "findEventInitiatorPairsDirectSuccessors traceEngineData selectedEvent =
     (case initiatorToEvents traceEngineData selectedEvent of
        None \<Rightarrow> []
      | Some eventsInitiatedByCurrent \<Rightarrow>
          map (\<lambda>ev. \<lparr>event = ev, initiator = selectedEvent\<rparr>) eventsInitiatedByCurrent)"

definition eventInitiatorPairsToDraw ::
  "('e \<Rightarrow> bool) \<Rightarrow> 'e TraceParseData \<Rightarrow> 'e \<Rightarrow> 'e InitiatorPair list option"
where
  "eventInitiatorPairsToDraw isSyntheticTraceEntry traceEngineData selectedEvent =
     (case findEventInitiatorPairsPredecessors isSyntheticTraceEntry traceEngineData selectedEvent of
        None \<Rightarrow> None
      | Some predecessors \<Rightarrow>
          Some (predecessors @ findEventInitiatorPairsDirectSuccessors traceEngineData selectedEvent))"

text \<open>
  The combined relation of the walk: an event steps to its initiator, or, when it has
  none and is a synthetic entry with a node, to the entry of the node's parent.
\<close>

definition next_event :: "('e \<Rightarrow> bool) \<Rightarrow> 'e TraceParseData \<Rightarrow> 'e \<Rightarrow> 'e option" where
  "next_event isSyntheticTraceEntry traceEngineData e =
     (case eventToInitiator traceEngineData e of
        Some i \<Rightarrow> Some i
      | None \<Rightarrow>
          if isSyntheticTraceEntry e
          then (case entryToNode traceEngineData e of
                  None \<Rightarrow> None
                | Some n \<Rightarrow> map_option entry (parent n))
          else None)"

definition step_rel :: "('e \<Rightarrow> bool) \<Rightarrow> 'e TraceParseData \<Rightarrow> ('e \<times> 'e) set" where
  "step_rel isSyntheticTraceEntry traceEngineData =
     {(e', e). next_event isSyntheticTraceEntry traceEngineData e = Some e'}"

text \<open>
  The backward chain as the specification words it, as a relation: \<open>initiator_chain syn d e ps\<close> holds when
  following the combined relation from \<open>e\<close> ends after finitely many steps and \<open>ps\<close> are
  the (event, initiator) pairs of the initiator steps, in the order they are taken.
\<close>

inductive initiator_chain ::
  "('e \<Rightarrow> bool) \<Rightarrow> 'e TraceParseData \<Rightarrow> 'e \<Rightarrow> 'e InitiatorPair list \<Rightarrow> bool"
  for syn :: "'e \<Rightarrow> bool" and d :: "'e TraceParseData"
where
  chain_end: "next_event syn d e = None \<Longrightarrow> initiator_chain syn d e []"
| chain_initiator:
    "eventToInitiator d e = Some i \<Longrightarrow> initiator_chain syn d i ps
       \<Longrightarrow> initiator_chain syn d e (\<lparr>event = e, initiator = i\<rparr> # ps)"
| chain_parent:
    "eventToInitiator d e = None \<Longrightarrow> next_event syn d e = Some p
       \<Longrightarrow> initiator_chain syn d p ps \<Longrightarrow> initiator_chain syn d e ps"

code_pred (modes: i \<Rightarrow> i \<Rightarrow> i \<Rightarrow> o \<Rightarrow> bool) initiator_chain .

text \<open>The depth of an event: the number of events on its path under the combined relation,
  the event itself included.\<close>

definition depth :: "('e \<Rightarrow> bool) \<Rightarrow> 'e TraceParseData \<Rightarrow> 'e \<Rightarrow> nat" where
  "depth syn d e = card {a. (a, e) \<in> (step_rel syn d)\<^sup>*}"

text \<open>A small trace used to run the functions: event 5 is synthetic, has no initiator and
  hangs below the entry 4 in the renderer tree; 4 was initiated by 2; 5 initiated 7 and 8.\<close>

definition ex_synthetic :: "nat \<Rightarrow> bool" where
  "ex_synthetic e = (e = 5)"

definition ex_trace :: "nat TraceParseData" where
  "ex_trace = \<lparr>eventToInitiator = [4 \<mapsto> 2], initiatorToEvents = [5 \<mapsto> [7, 8]],
     entryToNode = [5 \<mapsto> Node 5 (Some (Node 4 None))]\<rparr>"

text \<open>A trace whose initiator map has a cycle: event 1 is its own initiator.\<close>

definition ex_cyclic_trace :: "nat TraceParseData" where
  "ex_cyclic_trace = \<lparr>eventToInitiator = [1 \<mapsto> 1], initiatorToEvents = Map.empty,
     entryToNode = Map.empty\<rparr>"

subsection \<open>The BiDi frame: teardown and exposed functions\<close>

text \<open>A JavaScript \<open>Error\<close> with its message; \<open>DetachedFrameError\<close> stands for the error
  the \<open>throwIfDetached\<close> decorator throws.\<close>

datatype error = Error string | DetachedFrameError

text \<open>
  Modelled from the spec: the class \<open>Deferred\<close> (\<open>util/Deferred.js\<close>) is not among the
  sources. The abort deferred is a promise that teardown rejects: \<open>reject\<close> settles a
  pending deferred with the error and leaves a settled one as it is.
\<close>

datatype deferred = DeferredPending | DeferredResolved | DeferredRejected error

definition deferred_reject :: "error \<Rightarrow> deferred \<Rightarrow> deferred" where
  "deferred_reject e d = (case d of DeferredPending \<Rightarrow> DeferredRejected e | _ \<Rightarrow> d)"

datatype sandbox_key = MAIN_SANDBOX | PUPPETEER_SANDBOX

datatype navigation_method = Goto | SetContent | WaitForNavigation

datatype promise_state = PromisePending | PromiseFulfilled | PromiseRejected error

text \<open>A promise returned by \<open>goto\<close>, \<open>setContent\<close> or \<open>waitForNavigation\<close>. Each one is
  the first value of its own observable raced with the timeout and with
  \<open>abortDeferred.valueOrThrow()\<close>.\<close>

record navigation =
  nav_method :: navigation_method
  promise :: promise_state

text \<open>
  Modelled from the spec: \<open>raceWith\<close>, \<open>from\<close> and \<open>firstValueFrom\<close> (rxjs) are not among
  the sources. A navigation promise that is still pending when the abort deferred rejects
  is rejected with the deferred's error; a promise that has settled keeps its state.
\<close>

definition abort_race :: "error \<Rightarrow> navigation \<Rightarrow> navigation" where
  "abort_race e n =
     (case promise n of PromisePending \<Rightarrow> n\<lparr>promise := PromiseRejected e\<rparr> | _ \<Rightarrow> n)"

text \<open>The calls the frame makes on its collaborators, in order.\<close>

datatype effect = AbortDeferredReject error | ContextDispose | SandboxDispose sandbox_key

text \<open>Modelled from the spec: \<open>ExposeableFunction\<close> (\<open>bidi/ExposedFunction.js\<close>) is not
  among the sources; an exposeable function is built from the name and the function, and
  the outcome of its \<open>expose()\<close> is a parameter of \<open>exposeFunction\<close>.\<close>

datatype 'f exposeable = ExposeableFunction string 'f

record 'f BidiFrame =
  disposed :: bool
  abortDeferred :: deferred
  navigations :: "navigation list"
  exposedFunctions :: "string \<rightharpoonup> 'f exposeable"
  effects :: "effect list"

text \<open>The fields as the class initialises them.\<close>

definition new_BidiFrame :: "'f BidiFrame" where
  "new_BidiFrame = \<lparr>disposed = False, abortDeferred = DeferredPending, navigations = [],
     exposedFunctions = Map.empty, effects = []\<rparr>"

definition detached :: "'f BidiFrame \<Rightarrow> bool" where
  "detached s = disposed s"

text \<open>The method \<open>[disposeSymbol]()\<close>. Rejecting the abort deferred settles the races that
  are pending on it.\<close>

definition dispose :: "'f BidiFrame \<Rightarrow> 'f BidiFrame" where
  "dispose s =
     (if disposed s then s
      else
        let s1 = s\<lparr>disposed := True\<rparr>;
            err = Error ''Frame detached'';
            s2 = s1\<lparr>abortDeferred := deferred_reject err (abortDeferred s1),
                    navigations :=
                      (if abortDeferred s1 = DeferredPending
                       then map (abort_race err) (navigations s1) else navigations s1),
                    effects := effects s1 @ [AbortDeferredReject err]\<rparr>;
            s3 = s2\<lparr>effects := effects s2 @ [ContextDispose]\<rparr>;
            s4 = s3\<lparr>effects := effects s3 @ [SandboxDispose MAIN_SANDBOX]\<rparr>
        in s4\<lparr>effects := effects s4 @ [SandboxDispose PUPPETEER_SANDBOX]\<rparr>)"

text \<open>
  Modelled from the spec: the decorator \<open>throwIfDetached\<close> (\<open>api/Frame.js\<close>) is not among
  the sources. The decorated method throws when the frame's \<open>detached\<close> getter is true and
  runs the method otherwise.
\<close>

definition throwIfDetached ::
  "('f BidiFrame \<Rightarrow> error + 'f BidiFrame) \<Rightarrow> 'f BidiFrame \<Rightarrow> error + 'f BidiFrame"
where
  "throwIfDetached target s = (if detached s then Inl DetachedFrameError else target s)"

text \<open>The body of a navigation method up to its \<open>await\<close>: it subscribes a new promise to
  the race. A race with a deferred that was rejected already rejects at once.\<close>

definition start_navigation :: "navigation_method \<Rightarrow> 'f BidiFrame \<Rightarrow> error + 'f BidiFrame" where
  "start_navigation m s =
     Inr (s\<lparr>navigations := navigations s @
            [\<lparr>nav_method = m,
              promise = (case abortDeferred s of DeferredRejected e \<Rightarrow> PromiseRejected e
                         | _ \<Rightarrow> PromisePending)\<rparr>]\<rparr>)"

definition goto :: "'f BidiFrame \<Rightarrow> error + 'f BidiFrame" where
  "goto = throwIfDetached (start_navigation Goto)"

definition setContent :: "'f BidiFrame \<Rightarrow> error + 'f BidiFrame" where
  "setContent = throwIfDetached (start_navigation SetContent)"

definition waitForNavigation :: "'f BidiFrame \<Rightarrow> error + 'f BidiFrame" where
  "waitForNavigation = throwIfDetached (start_navigation WaitForNavigation)"

text \<open>\<open>exposeFunction(name, apply)\<close>; \<open>expose_outcome\<close> is \<open>None\<close> when \<open>expose()\<close> fulfils and
  the error when it rejects. The result is the thrown error or \<open>()\<close>, with the frame after
  the call.\<close>

definition already_exists_message :: "string \<Rightarrow> string" where
  "already_exists_message name =
     ''Failed to add page binding with name '' @ name @ '': globalThis['' @ [CHR 0x27] @ name
       @ [CHR 0x27] @ ''] already exists!''"

definition exposeFunction ::
  "string \<Rightarrow> 'f \<Rightarrow> error option \<Rightarrow> 'f BidiFrame \<Rightarrow> (error + unit) \<times> 'f BidiFrame"
where
  "exposeFunction name apply expose_outcome s =
     (if name \<in> dom (exposedFunctions s)
      then (Inl (Error (already_exists_message name)), s)
      else
        let exposeable = ExposeableFunction name apply;
            s1 = s\<lparr>exposedFunctions := (exposedFunctions s)(name \<mapsto> exposeable)\<rparr>
        in (case expose_outcome of
              None \<Rightarrow> (Inr (), s1)
            | Some err \<Rightarrow> (Inl err, s1\<lparr>exposedFunctions := (exposedFunctions s1)(name := None)\<rparr>)))"

text \<open>A live frame: not disposed, its abort deferred pending. The constructor gives a
  live frame and no method but teardown settles the deferred.\<close>

definition live :: "'f BidiFrame \<Rightarrow> bool" where
  "live s = (\<not> disposed s \<and> abortDeferred s = DeferredPending)"

text \<open>A frame with a navigation in flight, one that finished and one exposed function.\<close>

definition ex_frame :: "nat BidiFrame" where
  "ex_frame = \<lparr>disposed = False, abortDeferred = DeferredPending,
     navigations = [\<lparr>nav_method = Goto, promise = PromisePending\<rparr>,
                    \<lparr>nav_method = SetContent, promise = PromiseFulfilled\<rparr>],
     exposedFunctions = [''f'' \<mapsto> ExposeableFunction ''f'' 0], effects = []\<rparr>"

subsection \<open>The visual-logging driver\<close>

text \<open>
  Loggables, DOM nodes and throttlers are host objects compared by identity: numbers.
  A document is known by its \<open>body\<close>; a mutation observer by the root it was created for.
\<close>

type_synonym loggable = nat
type_synonym dom_node = nat
type_synonym throttler = nat
type_synonym DOMRect = "int \<times> int"

datatype Document = Document (body: dom_node)

datatype MutationObserver = MutationObserver dom_node

text \<open>Of a logging config the driver reads the \<open>track\<close> map only; an undefined \<open>track\<close>
  answers every \<open>has\<close> with false, as the empty map does.\<close>

record LoggingConfig =
  track :: "string \<rightharpoonup> string"

text \<open>The cached state of a loggable. \<open>parentState\<close> is the field \<open>parent\<close>: the logging
  state of the parent, named by the parent loggable that owns it; \<open>overlapSize\<close> is the
  field \<open>size\<close>.\<close>

record LoggingState =
  impressionLogged :: bool
  processed :: bool
  processedForDebugging :: bool
  config :: LoggingConfig
  parentState :: "loggable option"
  overlapSize :: "DOMRect option"
  selectOpen :: bool

text \<open>
  The module state of \<open>LoggingDriver.ts\<close>, the cache of logging states it works on, and
  the calls it makes on the host: listeners on documents, observers disconnected,
  processing scheduled, batches handed to \<open>logImpressions\<close>, the listener blocks installed
  on elements (one entry for each run of the block, with the listeners it added), and the
  calls of \<open>unregisterLoggable\<close> and \<open>unregisterAllLoggables\<close>.
\<close>

record LoggingDriver =
  logging :: bool
  processingThrottler :: "throttler option"
  documents :: "Document list"
  mutationObservers :: "dom_node \<rightharpoonup> MutationObserver"
  loggingStates :: "loggable \<rightharpoonup> LoggingState"
  documentListeners :: "(Document \<times> string) set"
  disconnected :: "MutationObserver list"
  scheduled :: "throttler list"
  impressionBatches :: "loggable list list"
  installed :: "(loggable \<times> string list) list"
  unregistered :: "loggable list"
  unregisterAllCalls :: nat

text \<open>The module as loaded: \<open>processingThrottler\<close> is declared without a value.\<close>

definition initial_driver :: LoggingDriver where
  "initial_driver = \<lparr>logging = False, processingThrottler = None, documents = [],
     mutationObservers = Map.empty, loggingStates = Map.empty, documentListeners = {},
     disconnected = [], scheduled = [], impressionBatches = [], installed = [],
     unregistered = [], unregisterAllCalls = 0\<rparr>"

fun observeMutations :: "dom_node list \<Rightarrow> LoggingDriver \<Rightarrow> LoggingDriver" where
  "observeMutations [] s = s"
| "observeMutations (root # roots) s =
     observeMutations roots
       (if root \<notin> dom (mutationObservers s)
        then s\<lparr>mutationObservers := (mutationObservers s)(root \<mapsto> MutationObserver root)\<rparr>
        else s)"

text \<open>The body of the two loops of \<open>stopLogging\<close>: \<open>mutationObservers.get(n)?.disconnect()\<close>
  and \<open>mutationObservers.delete(n)\<close>.\<close>

definition disconnectObserver :: "dom_node \<Rightarrow> LoggingDriver \<Rightarrow> LoggingDriver" where
  "disconnectObserver n s =
     (let s1 = (case mutationObservers s n of
                  None \<Rightarrow> s
                | Some obs \<Rightarrow> s\<lparr>disconnected := disconnected s @ [obs]\<rparr>)
      in s1\<lparr>mutationObservers := (mutationObservers s1)(n := None)\<rparr>)"

definition stopDocument :: "Document \<Rightarrow> LoggingDriver \<Rightarrow> LoggingDriver" where
  "stopDocument doc s =
     disconnectObserver (body doc)
       (s\<lparr>documentListeners :=
            documentListeners s - {(doc, ''visibilitychange'')} - {(doc, ''scroll'')}\<rparr>)"

text \<open>\<open>stopLogging\<close>. \<open>getDomState\<close> is not among the sources; the shadow roots it finds in
  the documents are the parameter \<open>shadowRoots\<close>.\<close>

definition stopLogging :: "dom_node list \<Rightarrow> LoggingDriver \<Rightarrow> LoggingDriver" where
  "stopLogging shadowRoots s =
     (let s1 = s\<lparr>logging := False\<rparr>;
          s2 = s1\<lparr>unregisterAllCalls := Suc (unregisterAllCalls s1)\<rparr>;
          s3 = fold stopDocument (documents s2) s2;
          s4 = fold disconnectObserver shadowRoots s3
      in s4\<lparr>documents := [], processingThrottler := None\<rparr>)"

definition scheduleProcessing :: "LoggingDriver \<Rightarrow> LoggingDriver" where
  "scheduleProcessing s =
     (case processingThrottler s of
        None \<Rightarrow> s
      | Some t \<Rightarrow> s\<lparr>scheduled := scheduled s @ [t]\<rparr>)"

text \<open>
  What one run of \<open>process\<close> reads from the host. A DOM loggable comes from
  \<open>getDomState\<close> with its parent; with it go what the loop reads about the element:
  its logging config, its visible overlap with the viewport (\<open>None\<close> for \<open>null\<close>) and its tag
  name. A non-DOM loggable is a registration \<open>{loggable, config, parent}\<close> of
  \<open>getNonDomState().loggables\<close>.
\<close>

record DomLoggable =
  dl_element :: loggable
  dl_parent :: "loggable option"
  dl_config :: LoggingConfig
  dl_overlap :: "DOMRect option"
  dl_tagName :: string

record NonDomLoggable =
  nl_loggable :: loggable
  nl_config :: LoggingConfig
  nl_parent :: "loggable option"

record ProcessInput =
  documentHidden :: bool
  veDebuggingEnabled :: bool
  domLoggables :: "DomLoggable list"
  shadowRoots :: "dom_node list"
  nonDomLoggables :: "NonDomLoggable list"

text \<open>
  Modelled from the spec: \<open>getOrCreateLoggingState\<close> (\<open>LoggingState.ts\<close>) is not among the
  sources. The state of a loggable is cached: an existing state is returned as it is,
  and a missing one is created with \<open>impressionLogged\<close> and \<open>processed\<close> unset, the given
  config and the state of the parent, if the parent has one.
\<close>

definition getOrCreateLoggingState ::
  "loggable \<Rightarrow> LoggingConfig \<Rightarrow> loggable option \<Rightarrow> (loggable \<rightharpoonup> LoggingState)
     \<Rightarrow> LoggingState \<times> (loggable \<rightharpoonup> LoggingState)"
where
  "getOrCreateLoggingState l cfg par states =
     (case states l of
        Some st \<Rightarrow> (st, states)
      | None \<Rightarrow>
          (let st = \<lparr>impressionLogged = False, processed = False,
                     processedForDebugging = False, config = cfg,
                     parentState = (case par of None \<Rightarrow> None
                                    | Some p \<Rightarrow> if p \<in> dom states then Some p else None),
                     overlapSize = None, selectOpen = False\<rparr>
           in (st, states(l \<mapsto> st))))"

text \<open>\<open>loggingState.parent?.selectOpen\<close> and \<open>!loggingState.parent ||
  loggingState.parent.impressionLogged\<close>.\<close>

definition parentSelectOpen :: "(loggable \<rightharpoonup> LoggingState) \<Rightarrow> LoggingState \<Rightarrow> bool" where
  "parentSelectOpen states st =
     (case parentState st of
        None \<Rightarrow> False
      | Some p \<Rightarrow> (case states p of None \<Rightarrow> False | Some ps \<Rightarrow> selectOpen ps))"

definition parentImpressionLogged :: "(loggable \<rightharpoonup> LoggingState) \<Rightarrow> LoggingState \<Rightarrow> bool" where
  "parentImpressionLogged states st =
     (case parentState st of
        None \<Rightarrow> True
      | Some p \<Rightarrow> (case states p of None \<Rightarrow> True | Some ps \<Rightarrow> impressionLogged ps))"

text \<open>The listeners and observers the block under \<open>if (!loggingState.processed)\<close> adds to an
  element, by event type, in the order of the block.\<close>

definition listenersFor :: "LoggingConfig \<Rightarrow> string \<Rightarrow> string list" where
  "listenersFor cfg tag =
     (if ''click'' \<in> dom (track cfg) then [''click''] else [])
     @ (if ''dblclick'' \<in> dom (track cfg) then [''dblclick''] else [])
     @ (if ''hover'' \<in> dom (track cfg) then [''mouseover'', ''mouseout''] else [])
     @ (if ''drag'' \<in> dom (track cfg) then [''pointerdown'', ''pointerup''] else [])
     @ (if ''change'' \<in> dom (track cfg) then [''change''] else [])
     @ (if ''keydown'' \<in> dom (track cfg) then [''keydown''] else [])
     @ (if ''resize'' \<in> dom (track cfg) then [''ResizeObserver'', ''IntersectionObserver'']
        else [])
     @ (if tag = ''SELECT'' then [''click'', ''keydown'', ''keypress'', ''change''] else [])"

text \<open>The loop over the DOM loggables has three blocks. The first, under
  \<open>if (!loggingState.impressionLogged)\<close>, decides whether the element goes into the local
  array \<open>visibleLoggables\<close>.\<close>

definition impressionBlock ::
  "DomLoggable \<Rightarrow> (loggable \<rightharpoonup> LoggingState) \<Rightarrow> LoggingState \<Rightarrow> loggable list
     \<Rightarrow> LoggingState \<times> loggable list"
where
  "impressionBlock inp states st visibleLoggables =
     (if \<not> impressionLogged st
      then
        (let visibleSelectOption = (dl_tagName inp = ''OPTION'' \<and> parentSelectOpen states st)
         in if dl_overlap inp \<noteq> None \<or> visibleSelectOption
            then (st\<lparr>overlapSize := (if dl_overlap inp \<noteq> None then dl_overlap inp
                                      else overlapSize st),
                     impressionLogged := True\<rparr>,
                  visibleLoggables @ [dl_element inp])
            else (st, visibleLoggables))
      else (st, visibleLoggables))"

text \<open>The second, under \<open>if (!loggingState.processed)\<close>, installs the listeners.\<close>

definition listenerBlock ::
  "DomLoggable \<Rightarrow> LoggingState \<Rightarrow> (loggable \<times> string list) list
     \<Rightarrow> LoggingState \<times> (loggable \<times> string list) list"
where
  "listenerBlock inp st inst =
     (if \<not> processed st
      then (st\<lparr>processed := True\<rparr>,
            inst @ [(dl_element inp, listenersFor (config st) (dl_tagName inp))])
      else (st, inst))"

text \<open>The third draws the debugging overlay; it is modelled by its flag only. The
  popover exists whenever debugging is enabled.\<close>

definition debuggingBlock ::
  "bool \<Rightarrow> DomLoggable \<Rightarrow> (loggable \<rightharpoonup> LoggingState) \<Rightarrow> LoggingState \<Rightarrow> LoggingState"
where
  "debuggingBlock veDebug inp states st =
     (if veDebug \<and> \<not> processedForDebugging st
      then (if dl_tagName inp = ''OPTION''
            then (if parentSelectOpen states st
                  then st\<lparr>processedForDebugging := True\<rparr> else st)
            else st\<lparr>processedForDebugging := True\<rparr>)
      else st)"

text \<open>One iteration of the loop over the DOM loggables. The second component is the local
  array \<open>visibleLoggables\<close>.\<close>

definition processDomLoggable ::
  "bool \<Rightarrow> DomLoggable \<Rightarrow> LoggingDriver \<times> loggable list \<Rightarrow> LoggingDriver \<times> loggable list"
where
  "processDomLoggable veDebug inp acc =
     (let s = fst acc;
          (st0, states0) = getOrCreateLoggingState (dl_element inp) (dl_config inp)
                             (dl_parent inp) (loggingStates s);
          (st1, visible1) = impressionBlock inp states0 st0 (snd acc);
          (st2, installed1) = listenerBlock inp st1 (installed s);
          st3 = debuggingBlock veDebug inp states0 st2
      in (s\<lparr>loggingStates := states0(dl_element inp \<mapsto> st3), installed := installed1\<rparr>,
          visible1))"

text \<open>One iteration of the loop over the non-DOM loggables. The debugging elements that
  the loop draws when debugging is enabled touch none of the state modelled here and are
  left out.\<close>

definition processNonDomLoggable ::
  "NonDomLoggable \<Rightarrow> LoggingDriver \<times> loggable list \<Rightarrow> LoggingDriver \<times> loggable list"
where
  "processNonDomLoggable inp acc =
     (let s = fst acc; visibleLoggables = snd acc;
          (st0, states0) = getOrCreateLoggingState (nl_loggable inp) (nl_config inp)
                             (nl_parent inp) (loggingStates s);
          visible = parentImpressionLogged states0 st0
      in if \<not> visible then (s\<lparr>loggingStates := states0\<rparr>, visibleLoggables)
         else (s\<lparr>loggingStates := states0(nl_loggable inp \<mapsto> st0\<lparr>impressionLogged := True\<rparr>),
                 unregistered := unregistered s @ [nl_loggable inp]\<rparr>,
               visibleLoggables @ [nl_loggable inp]))"

definition process :: "ProcessInput \<Rightarrow> LoggingDriver \<Rightarrow> LoggingDriver" where
  "process inp s =
     (if documentHidden inp then s
      else
        let s1 = observeMutations (shadowRoots inp) s;
            acc1 = fold (processDomLoggable (veDebuggingEnabled inp)) (domLoggables inp) (s1, []);
            acc2 = fold processNonDomLoggable (nonDomLoggables inp) acc1
        in (fst acc2)\<lparr>impressionBatches := impressionBatches (fst acc2) @ [snd acc2]\<rparr>)"

text \<open>What the claims count: whether a flag of a loggable is set, how often a loggable was
  handed to \<open>logImpressions\<close>, how often its listener block ran, and how often the non-DOM
  registry listed it in the runs.\<close>

definition impressionFlag :: "LoggingDriver \<Rightarrow> loggable \<Rightarrow> bool" where
  "impressionFlag s l = (case loggingStates s l of None \<Rightarrow> False | Some st \<Rightarrow> impressionLogged st)"

definition processedFlag :: "LoggingDriver \<Rightarrow> loggable \<Rightarrow> bool" where
  "processedFlag s l = (case loggingStates s l of None \<Rightarrow> False | Some st \<Rightarrow> processed st)"

definition impressions :: "LoggingDriver \<Rightarrow> loggable \<Rightarrow> nat" where
  "impressions s l = count_list (concat (impressionBatches s)) l"

definition installations :: "LoggingDriver \<Rightarrow> loggable \<Rightarrow> nat" where
  "installations s l = count_list (map fst (installed s)) l"

text \<open>A loggable with a cached state whose parent state is absent or has its impression
  logged: the condition under which the non-DOM loop takes a loggable for visible.\<close>

definition parentLogged :: "LoggingDriver \<Rightarrow> loggable \<Rightarrow> bool" where
  "parentLogged s l =
     (case loggingStates s l of
        None \<Rightarrow> False
      | Some st \<Rightarrow> (case parentState st of None \<Rightarrow> True | Some p \<Rightarrow> impressionFlag s p))"

definition registryListings :: "ProcessInput list \<Rightarrow> loggable \<Rightarrow> nat" where
  "registryListings inps l =
     count_list (concat (map (\<lambda>inp. map nl_loggable (nonDomLoggables inp)) inps)) l"

text \<open>Example runs: a visible button tracked for clicks, and a non-DOM loggable without
  parent that the registry lists.\<close>

definition ex_dom_run :: ProcessInput where
  "ex_dom_run = \<lparr>documentHidden = False, veDebuggingEnabled = False,
     domLoggables = [\<lparr>dl_element = 3, dl_parent = None,
                       dl_config = \<lparr>track = [''click'' \<mapsto> '''']\<rparr>,
                       dl_overlap = Some (10, 10), dl_tagName = ''BUTTON''\<rparr>],
     shadowRoots = [], nonDomLoggables = []\<rparr>"

definition ex_nondom_run :: ProcessInput where
  "ex_nondom_run = \<lparr>documentHidden = False, veDebuggingEnabled = False,
     domLoggables = [], shadowRoots = [],
     nonDomLoggables = [\<lparr>nl_loggable = 7, nl_config = \<lparr>track = Map.empty\<rparr>,
                          nl_parent = None\<rparr>]\<rparr>"

text \<open>A driver that is logging two documents, one of them with an observed shadow root.\<close>

definition ex_driver :: LoggingDriver where
  "ex_driver = initial_driver\<lparr>logging := True, processingThrottler := Some 1,
     documents := [Document 10, Document 20],
     mutationObservers := [10 \<mapsto> MutationObserver 10, 20 \<mapsto> MutationObserver 20,
                           30 \<mapsto> MutationObserver 30],
     documentListeners := {(Document 10, ''visibilitychange''), (Document 10, ''scroll''),
                           (Document 20, ''visibilitychange''), (Document 20, ''scroll'')}\<rparr>"

subsection \<open>Array utilities\<close>

text \<open>\<open>Array.prototype.slice(start, end)\<close> for indices that are not negative.\<close>

definition js_slice :: "'a list \<Rightarrow> nat \<Rightarrow> nat \<Rightarrow> 'a list" where
  "js_slice xs start end = take (end - start) (drop start xs)"

text \<open>The comparator of the unit test. It is the total order of the numbers; in the
  model a total-order comparator is the order of a type of class \<open>linorder\<close>, and
  \<open>Array.prototype.sort(comparator)\<close> is \<open>sort\<close>.\<close>

definition comparator :: "int \<Rightarrow> int \<Rightarrow> int" where
  "comparator a b = (if a < b then -1 else (if a > b then 1 else 0))"

text \<open>
  Modelled from the spec: \<open>ArrayUtilities.removeElement\<close> (the platform's array
  utilities) is not among the sources, only its unit test is. With \<open>firstOnly\<close> it removes
  the first occurrence of the element, without it every occurrence; the elements that
  remain keep their order. The model returns the array that the call leaves behind.
\<close>

fun removeElement :: "'a list \<Rightarrow> 'a \<Rightarrow> bool \<Rightarrow> 'a list" where
  "removeElement [] element firstOnly = []"
| "removeElement (x # xs) element firstOnly =
     (if x = element
      then (if firstOnly then xs else removeElement xs element firstOnly)
      else x # removeElement xs element firstOnly)"

text \<open>
  Modelled from the spec: \<open>ArrayUtilities.sortRange\<close> is not among the sources, only its
  unit test is. The call sorts the window \<open>[sortWindowLeft, sortWindowRight]\<close> of the
  subarray \<open>[left, right]\<close>: afterwards the window holds what the fully sorted subarray
  holds there, the elements that the sorted subarray has before the window lie before
  it and those it has after the window lie after it, and the array outside
  \<open>[left, right]\<close> is as it was. The order in which the elements around the window are
  left is not fixed; it is the parameter \<open>arrange\<close>, any rearrangement of a list.
\<close>

definition sortRange ::
  "('a list \<Rightarrow> 'a list) \<Rightarrow> 'a::linorder list \<Rightarrow> nat \<Rightarrow> nat \<Rightarrow> nat \<Rightarrow> nat \<Rightarrow> 'a list"
where
  "sortRange arrange array left right sortWindowLeft sortWindowRight =
     (let middle = sort (js_slice array left (right + 1));
          before = arrange (js_slice middle 0 (sortWindowLeft - left));
          window = js_slice middle (sortWindowLeft - left) (sortWindowRight + 1 - left);
          after = arrange (js_slice middle (sortWindowRight + 1 - left) (right + 1 - left))
      in js_slice array 0 left @ before @ window @ after
           @ js_slice array (right + 1) (length array))"

text \<open>The four assertions the unit test makes on the array \<open>actual\<close> that
  \<open>sortRange(actual, comparator, left, right, first, first + count - 1)\<close> leaves behind,
  for a fixture of which \<open>actual\<close> was a copy.\<close>

definition sortRange_asserts ::
  "'a::linorder list \<Rightarrow> 'a list \<Rightarrow> nat \<Rightarrow> nat \<Rightarrow> nat \<Rightarrow> nat \<Rightarrow> bool"
where
  "sortRange_asserts fixture actual left right first cnt =
     (js_slice fixture 0 left = js_slice actual 0 left
      \<and> drop (right + 1) fixture = drop (right + 1) actual
      \<and> (let middle = sort (js_slice fixture left (right + 1))
         in js_slice middle (first - left) (first - left + cnt)
              = js_slice actual first (first + cnt)
            \<and> drop (first - left + cnt) middle
              = sort (js_slice actual (first + cnt) (right + 1))))"

text \<open>The four nested loops of the test over one fixture.\<close>

definition sortRange_test :: "('a list \<Rightarrow> 'a list) \<Rightarrow> 'a::linorder list \<Rightarrow> bool" where
  "sortRange_test arrange fixture =
     (\<forall>left \<in> {0 ..< length fixture - 1}. \<forall>right \<in> {left ..< length fixture}.
        \<forall>first \<in> {left .. right}. \<forall>cnt \<in> {1 .. right - first + 1}.
          sortRange_asserts fixture
            (sortRange arrange fixture left right first (first + cnt - 1)) left right first cnt)"

text \<open>The fourth fixture of the test.\<close>

definition ex_fixture :: "int list" where
  "ex_fixture = [6, 4, 2, 7, 10, 15, 1]"

section \<open>Properties\<close>

subsection \<open>Initiator pairs: the walk and the chain\<close>

lemma predecessors_loop_null:
  "predecessors_loop syn d None acc k = Some (acc, k)"
  by (subst predecessors_loop.simps) simp

lemma predecessors_loop_step:
  assumes "next_event syn d e = Some p"
  shows "predecessors_loop syn d (Some e) acc k =
           predecessors_loop syn d (Some p)
             (acc @ (case eventToInitiator d e of None \<Rightarrow> []
                     | Some i \<Rightarrow> [\<lparr>event = e, initiator = i\<rparr>])) (Suc k)"
  using assms
  by (subst predecessors_loop.simps)
     (auto simp: next_event_def split: option.splits if_splits)

lemma predecessors_loop_root:
  assumes "next_event syn d e = None"
  shows "predecessors_loop syn d (Some e) acc k = Some (acc, Suc k)"
  using assms
  by (subst predecessors_loop.simps)
     (auto simp: next_event_def predecessors_loop_null split: option.splits if_splits)

text \<open>Every finite chain is what the loop returns.\<close>

lemma loop_chain_complete:
  "initiator_chain syn d e ch \<Longrightarrow>
     \<exists>n. predecessors_loop syn d (Some e) acc k = Some (acc @ ch, n)"
proof (induction arbitrary: acc k rule: initiator_chain.induct)
  case (chain_end e)
  then show ?case by (simp add: predecessors_loop_root)
next
  case (chain_initiator e i ps)
  have "next_event syn d e = Some i"
    using chain_initiator.hyps(1) by (simp add: next_event_def)
  from predecessors_loop_step[OF this, of acc k]
    chain_initiator.IH[of "acc @ [\<lparr>event = e, initiator = i\<rparr>]" "Suc k"]
  show ?case using chain_initiator.hyps(1) by simp
next
  case (chain_parent e p ps)
  from predecessors_loop_step[OF chain_parent.hyps(2), of acc k] chain_parent.IH[of acc "Suc k"]
  show ?case using chain_parent.hyps(1) by simp
qed

text \<open>Whatever the loop returns is a finite chain; by fixpoint induction on the loop.\<close>

lemma loop_chain_sound:
  assumes "predecessors_loop syn d cur acc k = Some r"
  shows "case cur of None \<Rightarrow> r = (acc, k)
         | Some e \<Rightarrow> \<exists>ch. initiator_chain syn d e ch \<and> fst r = acc @ ch"
proof (rule predecessors_loop.raw_induct
    [where P = "\<lambda>syn d cur acc k r. case cur of None \<Rightarrow> r = (acc, k)
         | Some e \<Rightarrow> \<exists>ch. initiator_chain syn d e ch \<and> fst r = acc @ ch", OF _ assms],
    goal_cases)
  case (1 f syn d cur acc k r)
  note IH = 1(1) and body = 1(2)
  show ?case
  proof (cases cur)
    case None
    with body show ?thesis by simp
  next
    case (Some e)
    note cur = this
    show ?thesis
    proof (cases "eventToInitiator d e")
      case (Some i)
      with body cur
      have "f syn d (Some i) (acc @ [\<lparr>event = e, initiator = i\<rparr>]) (Suc k) = Some r"
        by simp
      from IH[OF this] obtain ch where "initiator_chain syn d i ch"
        "fst r = (acc @ [\<lparr>event = e, initiator = i\<rparr>]) @ ch" by auto
      then show ?thesis using Some cur
        by (auto intro!: exI[of _ "\<lparr>event = e, initiator = i\<rparr> # ch"] chain_initiator)
    next
      case None
      note noinit = this
      show ?thesis
      proof (cases "next_event syn d e")
        case None
        then have "r = (acc, Suc k)"
          using body cur noinit IH[of syn d None acc "Suc k" r]
          by (auto simp: next_event_def split: option.splits if_splits)
        then show ?thesis using cur None
          by (auto intro!: exI[of _ "[]"] chain_end)
      next
        case (Some p)
        then have "f syn d (Some p) acc (Suc k) = Some r"
          using body cur noinit
          by (auto simp: next_event_def split: option.splits if_splits)
        from IH[OF this] obtain ch where "initiator_chain syn d p ch" "fst r = acc @ ch"
          by auto
        then show ?thesis using cur Some noinit
          by (auto intro: chain_parent)
      qed
    qed
  qed
qed

lemma predecessors_iff_chain:
  "findEventInitiatorPairsPredecessors syn d sel = Some ch \<longleftrightarrow> initiator_chain syn d sel ch"
proof
  assume "findEventInitiatorPairsPredecessors syn d sel = Some ch"
  then obtain n where "predecessors_loop syn d (Some sel) [] 0 = Some (ch, n)"
    by (auto simp: findEventInitiatorPairsPredecessors_def)
  from loop_chain_sound[OF this] show "initiator_chain syn d sel ch" by simp
next
  assume "initiator_chain syn d sel ch"
  from loop_chain_complete[OF this, of "[]" 0]
  show "findEventInitiatorPairsPredecessors syn d sel = Some ch"
    by (auto simp: findEventInitiatorPairsPredecessors_def)
qed

lemma chain_pairs_initiator:
  "initiator_chain syn d e ps \<Longrightarrow>
     \<forall>p\<in>set ps. eventToInitiator d (event p) = Some (initiator p)"
  by (induction rule: initiator_chain.induct) auto

lemma successors_pairs:
  "p \<in> set (findEventInitiatorPairsDirectSuccessors d sel) \<Longrightarrow>
     initiator p = sel \<and> (\<exists>evs. initiatorToEvents d sel = Some evs \<and> event p \<in> set evs)"
  by (cases "initiatorToEvents d sel") (auto simp: findEventInitiatorPairsDirectSuccessors_def)

lemma ex_trace_next:
  "next_event ex_synthetic ex_trace e = (if e = 5 then Some 4 else if e = 4 then Some 2 else None)"
  by (simp add: next_event_def ex_synthetic_def ex_trace_def)

lemma ex_trace_draw:
  "eventInitiatorPairsToDraw ex_synthetic ex_trace 5 =
     Some [\<lparr>event = 4, initiator = 2\<rparr>, \<lparr>event = 7, initiator = 5\<rparr>,
           \<lparr>event = 8, initiator = 5\<rparr>]"
  by (simp add: eventInitiatorPairsToDraw_def findEventInitiatorPairsPredecessors_def
      findEventInitiatorPairsDirectSuccessors_def predecessors_loop.simps
      ex_synthetic_def ex_trace_def)

text \<open>What the function returns, whenever it returns.\<close>

lemma eventInitiatorPairsToDraw_iff_chain:
  "eventInitiatorPairsToDraw syn d sel = Some ps \<longleftrightarrow>
     (\<exists>ch succs. ps = ch @ succs
        \<and> initiator_chain syn d sel ch
        \<and> (\<forall>p\<in>set ch. eventToInitiator d (event p) = Some (initiator p))
        \<and> succs = map (\<lambda>ev. \<lparr>event = ev, initiator = sel\<rparr>)
                    (case initiatorToEvents d sel of None \<Rightarrow> [] | Some evs \<Rightarrow> evs)
        \<and> (\<forall>p\<in>set succs. initiator p = sel
              \<and> (\<exists>evs. initiatorToEvents d sel = Some evs \<and> event p \<in> set evs)))"
  (is "?L \<longleftrightarrow> ?R")
proof -
  have succ: "findEventInitiatorPairsDirectSuccessors d sel =
      map (\<lambda>ev. \<lparr>event = ev, initiator = sel\<rparr>)
        (case initiatorToEvents d sel of None \<Rightarrow> [] | Some evs \<Rightarrow> evs)"
    by (simp add: findEventInitiatorPairsDirectSuccessors_def split: option.splits)
  have "?L \<longleftrightarrow>
      (\<exists>ch. initiator_chain syn d sel ch
         \<and> ps = ch @ findEventInitiatorPairsDirectSuccessors d sel)"
    by (auto simp: eventInitiatorPairsToDraw_def predecessors_iff_chain[symmetric]
          split: option.splits)
  also have "\<dots> \<longleftrightarrow> ?R"
    using chain_pairs_initiator[of syn d sel] successors_pairs[of _ d sel]
    unfolding succ by blast
  finally show ?thesis .
qed

subsection \<open>Initiator pairs: termination and the number of iterations\<close>

lemma step_rel_iff: "(a, e) \<in> step_rel syn d \<longleftrightarrow> next_event syn d e = Some a"
  by (simp add: step_rel_def)

lemma ancestors_root:
  assumes "next_event syn d e = None"
  shows "{a. (a, e) \<in> (step_rel syn d)\<^sup>*} = {e}"
proof -
  have "a = e" if "(a, e) \<in> (step_rel syn d)\<^sup>*" for a
    using that assms by (cases rule: rtranclE) (auto simp: step_rel_iff)
  then show ?thesis by auto
qed

lemma ancestors_step:
  assumes "next_event syn d e = Some p"
  shows "{a. (a, e) \<in> (step_rel syn d)\<^sup>*} = insert e {a. (a, p) \<in> (step_rel syn d)\<^sup>*}"
proof -
  have "a = e \<or> (a, p) \<in> (step_rel syn d)\<^sup>*" if "(a, e) \<in> (step_rel syn d)\<^sup>*" for a
    using that assms by (cases rule: rtranclE) (auto simp: step_rel_iff)
  moreover have "(a, e) \<in> (step_rel syn d)\<^sup>*" if "(a, p) \<in> (step_rel syn d)\<^sup>*" for a
    using that assms by (auto simp: step_rel_iff intro: rtrancl_into_rtrancl)
  ultimately show ?thesis by auto
qed

text \<open>On a well-founded relation the loop returns, after exactly \<open>depth\<close> iterations.\<close>

lemma loop_terminates_wf:
  assumes "wf (step_rel syn d)"
  shows "finite {a. (a, e) \<in> (step_rel syn d)\<^sup>*} \<and>
         (\<exists>ps. predecessors_loop syn d (Some e) acc k = Some (ps, k + depth syn d e))"
  using assms
proof (induction e arbitrary: acc k rule: wf_induct_rule)
  case (less e)
  show ?case
  proof (cases "next_event syn d e")
    case None
    then show ?thesis
      by (simp add: predecessors_loop_root[OF None] depth_def ancestors_root[OF None])
  next
    case (Some p)
    then have pe: "(p, e) \<in> step_rel syn d" by (simp add: step_rel_iff)
    let ?acc = "acc @ (case eventToInitiator d e of None \<Rightarrow> []
                     | Some i \<Rightarrow> [\<lparr>event = e, initiator = i\<rparr>])"
    from less.IH[OF pe, of ?acc "Suc k"]
    obtain ps where fin: "finite {a. (a, p) \<in> (step_rel syn d)\<^sup>*}"
      and run: "predecessors_loop syn d (Some p) ?acc (Suc k) = Some (ps, Suc k + depth syn d p)"
      by (elim conjE exE)
    have "e \<notin> {a. (a, p) \<in> (step_rel syn d)\<^sup>*}"
    proof
      assume "e \<in> {a. (a, p) \<in> (step_rel syn d)\<^sup>*}"
      then have "(e, e) \<in> (step_rel syn d)\<^sup>+"
        using pe by (auto intro: rtrancl_into_trancl1)
      moreover have "acyclic (step_rel syn d)"
        using \<open>wf (step_rel syn d)\<close> by (rule wf_acyclic)
      ultimately show False by (simp add: acyclic_def)
    qed
    with fin have "depth syn d e = Suc (depth syn d p)"
      by (simp add: depth_def ancestors_step[OF Some])
    moreover have "predecessors_loop syn d (Some e) acc k =
        predecessors_loop syn d (Some p) ?acc (Suc k)"
      by (rule predecessors_loop_step[OF Some])
    moreover have "finite {a. (a, e) \<in> (step_rel syn d)\<^sup>*}"
      using fin by (simp only: ancestors_step[OF Some] finite_insert)
    ultimately show ?thesis using run by simp
  qed
qed

lemma finite_step_rel:
  assumes "finite (dom (eventToInitiator d))" "finite (dom (entryToNode d))"
  shows "finite (step_rel syn d)"
proof -
  have "e \<in> dom (eventToInitiator d) \<union> dom (entryToNode d)"
    if "next_event syn d e = Some a" for a e
    using that by (auto simp: next_event_def split: option.splits if_splits)
  then have "step_rel syn d \<subseteq>
      (\<lambda>e. (the (next_event syn d e), e)) ` (dom (eventToInitiator d) \<union> dom (entryToNode d))"
    by (force simp: step_rel_iff)
  moreover have "finite ((\<lambda>e. (the (next_event syn d e), e)) `
      (dom (eventToInitiator d) \<union> dom (entryToNode d)))"
    using assms by simp
  ultimately show ?thesis by (rule finite_subset)
qed

lemma ex_trace_acyclic: "acyclic (step_rel ex_synthetic ex_trace)"
proof -
  have "step_rel ex_synthetic ex_trace = {(2, 4), (4, 5)}"
    by (auto simp: step_rel_iff ex_trace_next split: if_splits)
  moreover have "acyclic {(2::nat, 4::nat), (4, 5)}"
    by (rule acyclicI_order[where f = "\<lambda>x. 10 - x"]) auto
  ultimately show ?thesis by simp
qed

lemma ex_trace_depth: "depth ex_synthetic ex_trace 5 = 3"
proof -
  have n5: "next_event ex_synthetic ex_trace 5 = Some 4"
    and n4: "next_event ex_synthetic ex_trace 4 = Some 2"
    and n2: "next_event ex_synthetic ex_trace 2 = None"
    by (simp_all add: ex_trace_next)
  show ?thesis
    by (simp add: depth_def ancestors_step[OF n5] ancestors_step[OF n4] ancestors_root[OF n2])
qed

text \<open>Without acyclicity the loop need not return: on a self-initiated event it never does.\<close>

lemma cyclic_trace_no_chain:
  "initiator_chain syn ex_cyclic_trace e ch \<Longrightarrow> e \<noteq> 1"
  by (induction rule: initiator_chain.induct)
     (auto simp: next_event_def ex_cyclic_trace_def split: if_splits)

lemma cyclic_trace_diverges:
  "findEventInitiatorPairsPredecessors syn ex_cyclic_trace 1 = None"
proof (cases "findEventInitiatorPairsPredecessors syn ex_cyclic_trace 1")
  case (Some ch)
  then have "initiator_chain syn ex_cyclic_trace 1 ch" by (simp add: predecessors_iff_chain)
  from cyclic_trace_no_chain[OF this] show ?thesis by simp
qed simp




text \<open>
  Claim C4. The trace maps are JavaScript \<open>Map\<close>s, hence finite. Whenever the combined
  relation (an event to its initiator, or, when it has none and is a synthetic entry, to
  the entry of its node's parent) is acyclic, the loop of
  \<open>findEventInitiatorPairsPredecessors\<close> terminates, and the number of times its body runs
  is at most the depth of the selected event: the number of events on its path under the
  combined relation, the selected event included.
\<close>

theorem findEventInitiatorPairsPredecessors_terminates_depth:
  assumes "finite (dom (eventToInitiator d))" and "finite (dom (entryToNode d))"
    and "acyclic (step_rel syn d)"
  shows "\<exists>ps n. predecessors_loop syn d (Some sel) [] 0 = Some (ps, n)
           \<and> findEventInitiatorPairsPredecessors syn d sel = Some ps
           \<and> n \<le> depth syn d sel"
proof -
  have "wf (step_rel syn d)"
    using assms by (intro finite_acyclic_wf finite_step_rel)
  from loop_terminates_wf[OF this, of sel "[]" 0]
  show ?thesis by (auto simp: findEventInitiatorPairsPredecessors_def)
qed

theorem findEventInitiatorPairsPredecessors_terminates_depth_witness:
  "finite (dom (eventToInitiator ex_trace)) \<and> finite (dom (entryToNode ex_trace))
     \<and> acyclic (step_rel ex_synthetic ex_trace)
     \<and> depth ex_synthetic ex_trace 5 = 3
     \<and> (\<exists>ps n. predecessors_loop ex_synthetic ex_trace (Some 5) [] 0 = Some (ps, n)
           \<and> findEventInitiatorPairsPredecessors ex_synthetic ex_trace 5 = Some ps
           \<and> n \<le> 3)"
proof -
  have f1: "finite (dom (eventToInitiator ex_trace))"
    and f2: "finite (dom (entryToNode ex_trace))"
    by (simp_all add: ex_trace_def)
  from findEventInitiatorPairsPredecessors_terminates_depth[OF f1 f2 ex_trace_acyclic, of 5]
  show ?thesis using f1 f2 ex_trace_acyclic by (simp add: ex_trace_depth)
qed

subsection \<open>The BiDi frame\<close>

lemma live_new_BidiFrame: "live new_BidiFrame"
  by (simp add: live_def new_BidiFrame_def)

lemma live_start_navigation:
  "live s \<Longrightarrow> start_navigation m s = Inr s' \<Longrightarrow> live s'"
  by (auto simp: live_def start_navigation_def)

lemma live_exposeFunction:
  "live s \<Longrightarrow> live (snd (exposeFunction name apply r s))"
  by (auto simp: live_def exposeFunction_def Let_def split: option.splits)

lemma disposed_dispose: "disposed (dispose s)"
  by (simp add: dispose_def Let_def)

lemma dispose_effects:
  "\<not> disposed s \<Longrightarrow>
     effects (dispose s) = effects s @
       [AbortDeferredReject (Error ''Frame detached''), ContextDispose,
        SandboxDispose MAIN_SANDBOX, SandboxDispose PUPPETEER_SANDBOX]"
  by (simp add: dispose_def Let_def)

lemma dispose_when_disposed: "disposed s \<Longrightarrow> dispose s = s"
  by (simp add: dispose_def)

text \<open>
  Claim C5. When the dispose method runs on a live frame (not yet disposed, its abort
  deferred still pending), the abort deferred is rejected with the error
  \<open>Frame detached\<close>, every navigation promise (goto, setContent, waitForNavigation) still
  pending on the race is rejected with it, and afterwards \<open>detached\<close> is true and new
  calls of goto, setContent and waitForNavigation fail through \<open>throwIfDetached\<close>.
\<close>

theorem dispose_rejects_navigations:
  assumes "live s"
  shows "abortDeferred (dispose s) = DeferredRejected (Error ''Frame detached'')
       \<and> length (navigations (dispose s)) = length (navigations s)
       \<and> (\<forall>i < length (navigations s).
             promise (navigations s ! i) = PromisePending \<longrightarrow>
             promise (navigations (dispose s) ! i) = PromiseRejected (Error ''Frame detached''))
       \<and> detached (dispose s)
       \<and> goto (dispose s) = Inl DetachedFrameError
       \<and> setContent (dispose s) = Inl DetachedFrameError
       \<and> waitForNavigation (dispose s) = Inl DetachedFrameError"
proof -
  from assms have nd: "\<not> disposed s" and pend: "abortDeferred s = DeferredPending"
    by (simp_all add: live_def)
  have navs: "navigations (dispose s) = map (abort_race (Error ''Frame detached'')) (navigations s)"
    using nd pend by (simp add: dispose_def Let_def)
  have "abortDeferred (dispose s) = DeferredRejected (Error ''Frame detached'')"
    using nd pend by (simp add: dispose_def Let_def deferred_reject_def)
  moreover have "length (navigations (dispose s)) = length (navigations s)"
    by (simp add: navs)
  moreover have "\<forall>i < length (navigations s).
      promise (navigations s ! i) = PromisePending \<longrightarrow>
      promise (navigations (dispose s) ! i) = PromiseRejected (Error ''Frame detached'')"
    by (simp add: navs abort_race_def)
  moreover have "detached (dispose s)"
    by (simp add: detached_def disposed_dispose)
  ultimately show ?thesis
    by (simp add: goto_def setContent_def waitForNavigation_def throwIfDetached_def)
qed

theorem dispose_rejects_navigations_witness:
  "live ex_frame
   \<and> abortDeferred (dispose ex_frame) = DeferredRejected (Error ''Frame detached'')
   \<and> map promise (navigations (dispose ex_frame)) =
       [PromiseRejected (Error ''Frame detached''), PromiseFulfilled]
   \<and> detached (dispose ex_frame)
   \<and> goto (dispose ex_frame) = Inl DetachedFrameError
   \<and> setContent (dispose ex_frame) = Inl DetachedFrameError
   \<and> waitForNavigation (dispose ex_frame) = Inl DetachedFrameError
   \<and> (\<exists>s'. goto ex_frame = Inr s')"
proof -
  have l: "live ex_frame" by (simp add: live_def ex_frame_def)
  have "map promise (navigations (dispose ex_frame)) =
       [PromiseRejected (Error ''Frame detached''), PromiseFulfilled]"
    by (simp add: dispose_def Let_def ex_frame_def abort_race_def)
  moreover have "\<exists>s'. goto ex_frame = Inr s'"
    by (simp add: goto_def throwIfDetached_def detached_def start_navigation_def ex_frame_def)
  ultimately show ?thesis using dispose_rejects_navigations[OF l] l by simp
qed

text \<open>
  Claim C8. Disposing is idempotent: a second call returns at once because the disposed
  flag is set, so the frame after two calls equals the frame after one, and on a frame
  not yet disposed the two calls together reject the abort deferred, dispose the context
  and dispose each sandbox exactly once.
\<close>

theorem dispose_idempotent:
  "dispose (dispose s) = dispose s
   \<and> (\<not> disposed s \<longrightarrow>
        effects (dispose (dispose s)) = effects s @
          [AbortDeferredReject (Error ''Frame detached''), ContextDispose,
           SandboxDispose MAIN_SANDBOX, SandboxDispose PUPPETEER_SANDBOX]
        \<and> (\<forall>x \<in> {AbortDeferredReject (Error ''Frame detached''), ContextDispose,
                   SandboxDispose MAIN_SANDBOX, SandboxDispose PUPPETEER_SANDBOX}.
              count_list (effects (dispose (dispose s))) x = count_list (effects s) x + 1))"
proof -
  have idem: "dispose (dispose s) = dispose s"
    by (rule dispose_when_disposed) (rule disposed_dispose)
  show ?thesis
    unfolding idem by (auto simp: dispose_effects)
qed

theorem dispose_idempotent_witness:
  "\<not> disposed ex_frame
   \<and> dispose (dispose ex_frame) = dispose ex_frame
   \<and> effects (dispose (dispose ex_frame)) =
       [AbortDeferredReject (Error ''Frame detached''), ContextDispose,
        SandboxDispose MAIN_SANDBOX, SandboxDispose PUPPETEER_SANDBOX]"
proof -
  have nd: "\<not> disposed ex_frame" and e: "effects ex_frame = []"
    by (simp_all add: ex_frame_def)
  from dispose_idempotent[of ex_frame] nd
  have "dispose (dispose ex_frame) = dispose ex_frame"
    and "effects (dispose (dispose ex_frame)) = effects ex_frame @
          [AbortDeferredReject (Error ''Frame detached''), ContextDispose,
           SandboxDispose MAIN_SANDBOX, SandboxDispose PUPPETEER_SANDBOX]"
    by blast+
  with nd e show ?thesis by (simp only: append_Nil simp_thms)
qed

text \<open>
  Claim C9. \<open>exposeFunction\<close> is atomic on error: whenever it throws, the frame (the map of
  exposed functions included) is as it was before the call. When the name is already
  exposed it throws without touching the map; when \<open>expose()\<close> fails the entry just added is
  deleted before the error propagates.
\<close>

theorem exposeFunction_atomic_on_error:
  "(fst (exposeFunction name apply r s) = Inl e \<longrightarrow>
       snd (exposeFunction name apply r s) = s)
   \<and> (name \<in> dom (exposedFunctions s) \<longrightarrow>
       exposeFunction name apply r s = (Inl (Error (already_exists_message name)), s))
   \<and> (name \<notin> dom (exposedFunctions s) \<and> r = Some e \<longrightarrow>
       exposeFunction name apply r s = (Inl e, s))"
proof -
  have restore: "(m(name \<mapsto> x))(name := None) = m" if "name \<notin> dom m"
    for m :: "string \<rightharpoonup> 'a exposeable" and x
    using that by (auto simp: fun_eq_iff)
  show ?thesis
    by (auto simp: exposeFunction_def Let_def restore split: option.splits)
qed

theorem exposeFunction_atomic_on_error_witness:
  "exposeFunction ''f'' 1 None ex_frame = (Inl (Error (already_exists_message ''f'')), ex_frame)
   \<and> ''g'' \<notin> dom (exposedFunctions ex_frame)
   \<and> exposeFunction ''g'' 1 (Some (Error ''boom'')) ex_frame = (Inl (Error ''boom''), ex_frame)
   \<and> exposedFunctions (snd (exposeFunction ''g'' 1 None ex_frame)) ''g''
       = Some (ExposeableFunction ''g'' 1)"
proof -
  have f: "''f'' \<in> dom (exposedFunctions ex_frame)"
    and g: "''g'' \<notin> dom (exposedFunctions ex_frame)"
    by (simp_all add: ex_frame_def)
  have ok: "exposedFunctions (snd (exposeFunction ''g'' 1 None ex_frame)) ''g''
       = Some (ExposeableFunction ''g'' 1)"
    using g by (simp add: exposeFunction_def Let_def)
  from exposeFunction_atomic_on_error[of "''f''" 1 None ex_frame]
    exposeFunction_atomic_on_error[of "''g''" 1 "Some (Error ''boom'')" ex_frame "Error ''boom''"]
    f g ok
  show ?thesis by simp
qed

subsection \<open>The logging driver: stopping\<close>

lemma observers_after_delete:
  "{obs. \<exists>m\<in>B. ((mo)(d := None)) m = Some obs} \<union> {obs. mo d = Some obs}
     = {obs. \<exists>m\<in>insert d B. mo m = Some obs}"
  by (auto split: if_splits)

lemma observers_two_rounds:
  "D \<union> {obs. \<exists>n\<in>B. mo n = Some obs}
     \<union> {obs. \<exists>n\<in>R. (if n \<in> B then None else mo n) = Some obs}
   = D \<union> {obs. \<exists>n\<in>B \<union> R. mo n = Some obs}"
  by (auto split: if_splits)

lemma disconnectObserver_fields:
  "mutationObservers (disconnectObserver n s) = (mutationObservers s)(n := None)"
  "set (disconnected (disconnectObserver n s)) =
     set (disconnected s) \<union> {obs. mutationObservers s n = Some obs}"
  "scheduled (disconnectObserver n s) = scheduled s"
  by (auto simp: disconnectObserver_def Let_def split: option.splits)

lemma fold_disconnectObserver_observers:
  "mutationObservers (fold disconnectObserver ns s) =
     (\<lambda>n. if n \<in> set ns then None else mutationObservers s n)"
  by (induction ns arbitrary: s) (auto simp: disconnectObserver_fields fun_eq_iff)

lemma fold_disconnectObserver_disconnected:
  "set (disconnected (fold disconnectObserver ns s)) =
     set (disconnected s) \<union> {obs. \<exists>n\<in>set ns. mutationObservers s n = Some obs}"
proof (induction ns arbitrary: s)
  case Nil
  show ?case by simp
next
  case (Cons n ns)
  have "{obs. \<exists>m\<in>set ns. ((mutationObservers s)(n := None)) m = Some obs}
          \<union> {obs. mutationObservers s n = Some obs}
        = {obs. \<exists>m\<in>set (n # ns). mutationObservers s m = Some obs}"
    using observers_after_delete[of "set ns" "mutationObservers s" n] by simp
  then show ?case
    by (simp add: Cons.IH disconnectObserver_fields Un_assoc Un_commute)
qed

lemma fold_disconnectObserver_scheduled:
  "scheduled (fold disconnectObserver ns s) = scheduled s"
  by (induction ns arbitrary: s) (auto simp: disconnectObserver_fields)

lemma stopDocument_fields:
  "mutationObservers (stopDocument doc s) = (mutationObservers s)(body doc := None)"
  "set (disconnected (stopDocument doc s)) =
     set (disconnected s) \<union> {obs. mutationObservers s (body doc) = Some obs}"
  "scheduled (stopDocument doc s) = scheduled s"
  by (simp_all add: stopDocument_def disconnectObserver_fields)

lemma fold_stopDocument_observers:
  "mutationObservers (fold stopDocument docs s) =
     (\<lambda>n. if n \<in> body ` set docs then None else mutationObservers s n)"
  by (induction docs arbitrary: s) (auto simp: stopDocument_fields fun_eq_iff)

lemma fold_stopDocument_disconnected:
  "set (disconnected (fold stopDocument docs s)) =
     set (disconnected s) \<union> {obs. \<exists>n\<in>body ` set docs. mutationObservers s n = Some obs}"
proof (induction docs arbitrary: s)
  case Nil
  show ?case by simp
next
  case (Cons doc docs)
  have "{obs. \<exists>m\<in>body ` set docs. ((mutationObservers s)(body doc := None)) m = Some obs}
          \<union> {obs. mutationObservers s (body doc) = Some obs}
        = {obs. \<exists>m\<in>body ` set (doc # docs). mutationObservers s m = Some obs}"
    using observers_after_delete[of "body ` set docs" "mutationObservers s" "body doc"] by simp
  then show ?case
    by (simp add: Cons.IH stopDocument_fields Un_assoc Un_commute)
qed

lemma fold_stopDocument_scheduled:
  "scheduled (fold stopDocument docs s) = scheduled s"
  by (induction docs arbitrary: s) (auto simp: stopDocument_fields)

lemma stopLogging_disconnected:
  "set (disconnected (stopLogging roots s)) =
     set (disconnected s)
       \<union> {obs. \<exists>n\<in>body ` set (documents s) \<union> set roots. mutationObservers s n = Some obs}"
proof -
  have "set (disconnected (stopLogging roots s)) =
     set (disconnected s)
       \<union> {obs. \<exists>n\<in>body ` set (documents s). mutationObservers s n = Some obs}
       \<union> {obs. \<exists>n\<in>set roots.
              (if n \<in> body ` set (documents s) then None else mutationObservers s n) = Some obs}"
    by (simp add: stopLogging_def Let_def fold_disconnectObserver_disconnected
        fold_stopDocument_observers fold_stopDocument_disconnected)
  also have "\<dots> = set (disconnected s)
       \<union> {obs. \<exists>n\<in>body ` set (documents s) \<union> set roots. mutationObservers s n = Some obs}"
    by (rule observers_two_rounds)
  finally show ?thesis .
qed

lemma stopLogging_fields:
  "processingThrottler (stopLogging roots s) = None"
  "documents (stopLogging roots s) = []"
  "scheduled (stopLogging roots s) = scheduled s"
  "mutationObservers (stopLogging roots s) =
     (\<lambda>n. if n \<in> body ` set (documents s) \<union> set roots then None else mutationObservers s n)"
  by (auto simp: stopLogging_def Let_def fold_disconnectObserver_observers
      fold_disconnectObserver_scheduled
      fold_stopDocument_observers fold_stopDocument_scheduled
      fun_eq_iff)

text \<open>
  Claim C10. After \<open>stopLogging\<close> has run, and in the module as loaded before any
  \<open>startLogging\<close>, \<open>scheduleProcessing\<close> is a no-op. \<open>stopLogging\<close> sets
  \<open>processingThrottler\<close> to null, empties the documents list and disconnects and forgets
  the mutation observers of the document bodies and of the shadow roots; and whenever
  \<open>processingThrottler\<close> is null \<open>scheduleProcessing\<close> returns without scheduling
  anything.
\<close>

theorem scheduleProcessing_noop_after_stopLogging:
  "scheduleProcessing (stopLogging roots s) = stopLogging roots s
   \<and> scheduled (scheduleProcessing (stopLogging roots s)) = scheduled s
   \<and> scheduleProcessing initial_driver = initial_driver
   \<and> (processingThrottler s = None \<longrightarrow> scheduleProcessing s = s)
   \<and> processingThrottler (stopLogging roots s) = None
   \<and> documents (stopLogging roots s) = []
   \<and> (\<forall>n \<in> body ` set (documents s) \<union> set roots.
         mutationObservers (stopLogging roots s) n = None
         \<and> (\<forall>obs. mutationObservers s n = Some obs \<longrightarrow>
                obs \<in> set (disconnected (stopLogging roots s))))"
proof -
  have noop: "scheduleProcessing t = t" if "processingThrottler t = None" for t
    using that by (simp add: scheduleProcessing_def)
  have 1: "scheduleProcessing (stopLogging roots s) = stopLogging roots s"
    by (rule noop) (rule stopLogging_fields)
  have 2: "scheduleProcessing initial_driver = initial_driver"
    by (rule noop) (simp add: initial_driver_def)
  have 3: "\<forall>n \<in> body ` set (documents s) \<union> set roots.
         mutationObservers (stopLogging roots s) n = None
         \<and> (\<forall>obs. mutationObservers s n = Some obs \<longrightarrow>
                obs \<in> set (disconnected (stopLogging roots s)))"
    unfolding stopLogging_fields stopLogging_disconnected by auto
  show ?thesis
    using 3 noop[of s] unfolding 1 2 by (simp add: stopLogging_fields)
qed

theorem scheduleProcessing_noop_after_stopLogging_witness:
  "scheduled (scheduleProcessing ex_driver) = [1]
   \<and> scheduleProcessing (stopLogging [30] ex_driver) = stopLogging [30] ex_driver
   \<and> scheduled (scheduleProcessing (stopLogging [30] ex_driver)) = []
   \<and> processingThrottler initial_driver = None
   \<and> scheduleProcessing initial_driver = initial_driver
   \<and> mutationObservers (stopLogging [30] ex_driver) 10 = None
   \<and> mutationObservers (stopLogging [30] ex_driver) 20 = None
   \<and> mutationObservers (stopLogging [30] ex_driver) 30 = None
   \<and> MutationObserver 10 \<in> set (disconnected (stopLogging [30] ex_driver))
   \<and> MutationObserver 20 \<in> set (disconnected (stopLogging [30] ex_driver))
   \<and> MutationObserver 30 \<in> set (disconnected (stopLogging [30] ex_driver))"
proof -
  have docs: "body ` set (documents ex_driver) \<union> set [30] = {10, 20, 30}"
    and obs: "\<forall>n \<in> {10, 20, 30}. mutationObservers ex_driver n = Some (MutationObserver n)"
    and sch: "scheduled ex_driver = []" "scheduled (scheduleProcessing ex_driver) = [1]"
    and ini: "processingThrottler initial_driver = None"
    by (auto simp: ex_driver_def initial_driver_def scheduleProcessing_def)
  from scheduleProcessing_noop_after_stopLogging[of "[30]" ex_driver]
    scheduleProcessing_noop_after_stopLogging[of "[]" initial_driver]
    obs ini sch
  show ?thesis unfolding docs by auto
qed

subsection \<open>The logging driver: the flags under process\<close>

lemma getOrCreateLoggingState_cases:
  obtains (cached) st where "states l = Some st"
      "getOrCreateLoggingState l cfg par states = (st, states)"
  | (created) st where "states l = None"
      "getOrCreateLoggingState l cfg par states = (st, states(l \<mapsto> st))"
      "\<not> impressionLogged st" "\<not> processed st"
  by (cases "states l") (auto simp: getOrCreateLoggingState_def Let_def)

lemma impressionBlock_cases:
  assumes "impressionBlock inp states st v = (st', v')"
  shows "processed st' = processed st
       \<and> (if impressionLogged st then impressionLogged st' \<and> v' = v
           else (impressionLogged st' \<and> v' = v @ [dl_element inp])
                \<or> (\<not> impressionLogged st' \<and> v' = v))"
  using assms by (auto simp: impressionBlock_def Let_def split: if_splits)

lemma listenerBlock_cases:
  assumes "listenerBlock inp st inst = (st', inst')"
  shows "processed st' \<and> impressionLogged st' = impressionLogged st
       \<and> inst' = inst @ (if processed st then []
                          else [(dl_element inp, listenersFor (config st) (dl_tagName inp))])"
  using assms by (auto simp: listenerBlock_def split: if_splits)

lemma debuggingBlock_flags:
  "processed (debuggingBlock ve inp states st) = processed st"
  "impressionLogged (debuggingBlock ve inp states st) = impressionLogged st"
  by (simp_all add: debuggingBlock_def)

lemma processDomLoggable_shape:
  "\<exists>st ls. loggingStates (fst (processDomLoggable ve inp (s, v)))
             = (loggingStates s)(dl_element inp \<mapsto> st)
     \<and> processed st
     \<and> impressionBatches (fst (processDomLoggable ve inp (s, v))) = impressionBatches s
     \<and> unregistered (fst (processDomLoggable ve inp (s, v))) = unregistered s
     \<and> installed (fst (processDomLoggable ve inp (s, v)))
         = installed s @ (if processedFlag s (dl_element inp) then [] else [(dl_element inp, ls)])
     \<and> (if impressionFlag s (dl_element inp)
         then impressionLogged st \<and> snd (processDomLoggable ve inp (s, v)) = v
         else (impressionLogged st \<and> snd (processDomLoggable ve inp (s, v)) = v @ [dl_element inp])
              \<or> (\<not> impressionLogged st \<and> snd (processDomLoggable ve inp (s, v)) = v))"
proof -
  let ?e = "dl_element inp"
  obtain st0 states0 where g: "getOrCreateLoggingState ?e (dl_config inp) (dl_parent inp)
      (loggingStates s) = (st0, states0)" by fastforce
  obtain st1 v1 where i: "impressionBlock inp states0 st0 v = (st1, v1)" by fastforce
  obtain st2 inst where l: "listenerBlock inp st1 (installed s) = (st2, inst)" by fastforce
  define st3 where "st3 = debuggingBlock ve inp states0 st2"
  have r: "processDomLoggable ve inp (s, v)
      = (s\<lparr>loggingStates := states0(?e \<mapsto> st3), installed := inst\<rparr>, v1)"
    unfolding processDomLoggable_def using g i l
    by (simp add: Let_def st3_def)
  have upd: "states0(?e \<mapsto> st3) = (loggingStates s)(?e \<mapsto> st3)"
    and fl: "impressionFlag s ?e = impressionLogged st0" "processedFlag s ?e = processed st0"
    using g
    by (cases rule: getOrCreateLoggingState_cases
          [of "loggingStates s" ?e "dl_config inp" "dl_parent inp"];
        simp add: impressionFlag_def processedFlag_def)+
  from impressionBlock_cases[OF i] listenerBlock_cases[OF l]
  show ?thesis
    unfolding r upd fl
    by (intro exI[of _ st3] exI[of _ "listenersFor (config st1) (dl_tagName inp)"])
       (auto simp: st3_def debuggingBlock_flags split: if_splits)
qed


lemma processNonDomLoggable_shape:
  "\<exists>st. loggingStates (fst (processNonDomLoggable inp (s, v)))
             = (loggingStates s)(nl_loggable inp \<mapsto> st)
     \<and> processed st = processedFlag s (nl_loggable inp)
     \<and> (impressionFlag s (nl_loggable inp) \<longrightarrow> impressionLogged st)
     \<and> impressionBatches (fst (processNonDomLoggable inp (s, v))) = impressionBatches s
     \<and> installed (fst (processNonDomLoggable inp (s, v))) = installed s
     \<and> ((impressionLogged st \<and> snd (processNonDomLoggable inp (s, v)) = v @ [nl_loggable inp])
         \<or> snd (processNonDomLoggable inp (s, v)) = v)"
proof -
  let ?e = "nl_loggable inp"
  obtain st0 states0 where g: "getOrCreateLoggingState ?e (nl_config inp) (nl_parent inp)
      (loggingStates s) = (st0, states0)" by fastforce
  have same: "states0 = (loggingStates s)(?e \<mapsto> st0)"
    and fl: "impressionFlag s ?e = impressionLogged st0" "processedFlag s ?e = processed st0"
    using g
    by (cases rule: getOrCreateLoggingState_cases
          [of "loggingStates s" ?e "nl_config inp" "nl_parent inp"];
        auto simp add: impressionFlag_def processedFlag_def)+
  have upd: "states0(?e \<mapsto> st) = (loggingStates s)(?e \<mapsto> st)" for st
    by (simp add: same)
  show ?thesis
  proof (cases "parentImpressionLogged states0 st0")
    case True
    then have "processNonDomLoggable inp (s, v)
        = (s\<lparr>loggingStates := (loggingStates s)(?e \<mapsto> st0\<lparr>impressionLogged := True\<rparr>),
             unregistered := unregistered s @ [?e]\<rparr>, v @ [?e])"
      unfolding processNonDomLoggable_def using g by (simp add: Let_def upd)
    then show ?thesis
      by (intro exI[of _ "st0\<lparr>impressionLogged := True\<rparr>"]) (simp add: fl)
  next
    case False
    then have "processNonDomLoggable inp (s, v)
        = (s\<lparr>loggingStates := (loggingStates s)(?e \<mapsto> st0)\<rparr>, v)"
      unfolding processNonDomLoggable_def using g same by (simp add: Let_def)
    then show ?thesis
      by (intro exI[of _ st0]) (simp add: fl)
  qed
qed

lemma flag_upd:
  "loggingStates s' = (loggingStates s)(e \<mapsto> st) \<Longrightarrow>
     impressionFlag s' k = (if k = e then impressionLogged st else impressionFlag s k)"
  "loggingStates s' = (loggingStates s)(e \<mapsto> st) \<Longrightarrow>
     processedFlag s' k = (if k = e then processed st else processedFlag s k)"
  by (simp_all add: impressionFlag_def processedFlag_def)

lemma impressions_same:
  "impressionBatches s' = impressionBatches s \<Longrightarrow> impressions s' k = impressions s k"
  by (simp add: impressions_def)

lemma installations_app:
  "installed s' = installed s @ xs \<Longrightarrow>
     installations s' k = installations s k + count_list (map fst xs) k"
  by (simp add: installations_def)

lemma processDomLoggable_inv:
  assumes r_def: "r = processDomLoggable ve inp acc"
  shows "(impressionFlag (fst acc) k \<longrightarrow> impressionFlag (fst r) k)
       \<and> (processedFlag (fst acc) k \<longrightarrow> processedFlag (fst r) k)
       \<and> count_list (snd r) k + impressions (fst r) k
             + (if impressionFlag (fst r) k then 0 else 1)
           \<le> count_list (snd acc) k + impressions (fst acc) k
             + (if impressionFlag (fst acc) k then 0 else 1)
       \<and> installations (fst r) k + (if processedFlag (fst r) k then 0 else 1)
           \<le> installations (fst acc) k + (if processedFlag (fst acc) k then 0 else 1)"
proof -
  obtain s v where acc: "acc = (s, v)" by (cases acc)
  from processDomLoggable_shape[of ve inp s v]
  obtain st ls where
    st: "loggingStates (fst r) = (loggingStates s)(dl_element inp \<mapsto> st)"
    and p: "processed st"
    and b: "impressionBatches (fst r) = impressionBatches s"
    and i: "installed (fst r) = installed s @
              (if processedFlag s (dl_element inp) then [] else [(dl_element inp, ls)])"
    and v: "if impressionFlag s (dl_element inp)
         then impressionLogged st \<and> snd r = v
         else (impressionLogged st \<and> snd r = v @ [dl_element inp])
              \<or> (\<not> impressionLogged st \<and> snd r = v)"
    unfolding r_def acc by blast
  show ?thesis
    unfolding acc fst_conv snd_conv flag_upd[OF st] impressions_same[OF b] installations_app[OF i]
    using p v by (auto split: if_splits)
qed

lemma processNonDomLoggable_inv:
  assumes r_def: "r = processNonDomLoggable inp acc"
  shows "(impressionFlag (fst acc) k \<longrightarrow> impressionFlag (fst r) k)
       \<and> (processedFlag (fst acc) k \<longrightarrow> processedFlag (fst r) k)
       \<and> count_list (snd r) k + impressions (fst r) k
             + (if impressionFlag (fst r) k then 0 else 1)
           \<le> count_list (snd acc) k + impressions (fst acc) k
             + (if impressionFlag (fst acc) k then 0 else 1)
             + (if nl_loggable inp = k then 1 else 0)
       \<and> installations (fst r) k + (if processedFlag (fst r) k then 0 else 1)
           \<le> installations (fst acc) k + (if processedFlag (fst acc) k then 0 else 1)"
proof -
  obtain s v where acc: "acc = (s, v)" by (cases acc)
  from processNonDomLoggable_shape[of inp s v]
  obtain st where
    st: "loggingStates (fst r) = (loggingStates s)(nl_loggable inp \<mapsto> st)"
    and p: "processed st = processedFlag s (nl_loggable inp)"
    and m: "impressionFlag s (nl_loggable inp) \<longrightarrow> impressionLogged st"
    and b: "impressionBatches (fst r) = impressionBatches s"
    and i: "installed (fst r) = installed s @ []"
    and v: "(impressionLogged st \<and> snd r = v @ [nl_loggable inp]) \<or> snd r = v"
    unfolding r_def acc by auto
  show ?thesis
    unfolding acc fst_conv snd_conv flag_upd[OF st] impressions_same[OF b] installations_app[OF i]
    using p m v by (auto split: if_splits)
qed


lemma fold_processDomLoggable_inv:
  "(impressionFlag (fst acc) k \<longrightarrow> impressionFlag (fst (fold (processDomLoggable ve) inps acc)) k)
   \<and> (processedFlag (fst acc) k \<longrightarrow> processedFlag (fst (fold (processDomLoggable ve) inps acc)) k)
   \<and> count_list (snd (fold (processDomLoggable ve) inps acc)) k
         + impressions (fst (fold (processDomLoggable ve) inps acc)) k
         + (if impressionFlag (fst (fold (processDomLoggable ve) inps acc)) k then 0 else 1)
       \<le> count_list (snd acc) k + impressions (fst acc) k
         + (if impressionFlag (fst acc) k then 0 else 1)
   \<and> installations (fst (fold (processDomLoggable ve) inps acc)) k
         + (if processedFlag (fst (fold (processDomLoggable ve) inps acc)) k then 0 else 1)
       \<le> installations (fst acc) k + (if processedFlag (fst acc) k then 0 else 1)"
proof (induction inps arbitrary: acc)
  case Nil
  show ?case by simp
next
  case (Cons inp inps)
  from processDomLoggable_inv[OF refl, where ve = ve and inp = inp and acc = acc and k = k]
    Cons.IH[of "processDomLoggable ve inp acc"]
  show ?case by (simp only: fold_simps) linarith
qed

lemma fold_processNonDomLoggable_inv:
  "(impressionFlag (fst acc) k \<longrightarrow> impressionFlag (fst (fold processNonDomLoggable inps acc)) k)
   \<and> (processedFlag (fst acc) k \<longrightarrow> processedFlag (fst (fold processNonDomLoggable inps acc)) k)
   \<and> count_list (snd (fold processNonDomLoggable inps acc)) k
         + impressions (fst (fold processNonDomLoggable inps acc)) k
         + (if impressionFlag (fst (fold processNonDomLoggable inps acc)) k then 0 else 1)
       \<le> count_list (snd acc) k + impressions (fst acc) k
         + (if impressionFlag (fst acc) k then 0 else 1)
         + count_list (map nl_loggable inps) k
   \<and> installations (fst (fold processNonDomLoggable inps acc)) k
         + (if processedFlag (fst (fold processNonDomLoggable inps acc)) k then 0 else 1)
       \<le> installations (fst acc) k + (if processedFlag (fst acc) k then 0 else 1)"
proof (induction inps arbitrary: acc)
  case Nil
  show ?case by simp
next
  case (Cons inp inps)
  from processNonDomLoggable_inv[OF refl, where inp = inp and acc = acc and k = k]
    Cons.IH[of "processNonDomLoggable inp acc"]
  show ?case by (simp only: fold_simps list.map count_list.simps) (auto split: if_splits)
qed

lemma observeMutations_fields:
  "loggingStates (observeMutations roots s) = loggingStates s"
  "impressionBatches (observeMutations roots s) = impressionBatches s"
  "installed (observeMutations roots s) = installed s"
  by (induction roots arbitrary: s) auto

lemma observeMutations_counts:
  "impressionFlag (observeMutations roots s) k = impressionFlag s k"
  "processedFlag (observeMutations roots s) k = processedFlag s k"
  "impressions (observeMutations roots s) k = impressions s k"
  "installations (observeMutations roots s) k = installations s k"
  by (simp_all add: impressionFlag_def processedFlag_def impressions_def installations_def
      observeMutations_fields)

lemma process_inv:
  "(impressionFlag s k \<longrightarrow> impressionFlag (process inp s) k)
   \<and> (processedFlag s k \<longrightarrow> processedFlag (process inp s) k)
   \<and> impressions (process inp s) k + (if impressionFlag (process inp s) k then 0 else 1)
       \<le> impressions s k + (if impressionFlag s k then 0 else 1)
         + count_list (map nl_loggable (nonDomLoggables inp)) k
   \<and> installations (process inp s) k + (if processedFlag (process inp s) k then 0 else 1)
       \<le> installations s k + (if processedFlag s k then 0 else 1)"
proof (cases "documentHidden inp")
  case True
  then show ?thesis by (simp add: process_def)
next
  case False
  define s1 where "s1 = observeMutations (shadowRoots inp) s"
  define acc1 where "acc1 = fold (processDomLoggable (veDebuggingEnabled inp)) (domLoggables inp) (s1, [])"
  define acc2 where "acc2 = fold processNonDomLoggable (nonDomLoggables inp) acc1"
  have p: "process inp s = (fst acc2)\<lparr>impressionBatches := impressionBatches (fst acc2) @ [snd acc2]\<rparr>"
    using False by (simp add: process_def Let_def s1_def acc1_def acc2_def)
  have fin: "impressionFlag (process inp s) k = impressionFlag (fst acc2) k"
    "processedFlag (process inp s) k = processedFlag (fst acc2) k"
    "installations (process inp s) k = installations (fst acc2) k"
    "impressions (process inp s) k = impressions (fst acc2) k + count_list (snd acc2) k"
    unfolding p by (simp_all add: impressionFlag_def processedFlag_def installations_def impressions_def)
  from fold_processDomLoggable_inv[where acc = "(s1, [])" and k = k
      and ve = "veDebuggingEnabled inp" and inps = "domLoggables inp"]
    fold_processNonDomLoggable_inv[where acc = acc1 and k = k and inps = "nonDomLoggables inp"]
  show ?thesis
    unfolding fin acc1_def[symmetric] acc2_def[symmetric]
    by (simp add: s1_def observeMutations_counts)
qed

text \<open>A loggable whose flag is set and whose parent is logged: the DOM loop skips it, the
  non-DOM loop takes every listing of it.\<close>

lemma impressionBlock_parentState:
  "parentState (fst (impressionBlock inp states st v)) = parentState st"
  by (simp add: impressionBlock_def Let_def)

lemma listenerBlock_parentState:
  "parentState (fst (listenerBlock inp st inst)) = parentState st"
  by (simp add: listenerBlock_def)

lemma debuggingBlock_parentState:
  "parentState (debuggingBlock ve inp states st) = parentState st"
  by (simp add: debuggingBlock_def)

lemma getOrCreateLoggingState_cached:
  "states l = Some st \<Longrightarrow> getOrCreateLoggingState l cfg par states = (st, states)"
  by (simp add: getOrCreateLoggingState_def)

lemma getOrCreateLoggingState_others:
  "k \<noteq> l \<Longrightarrow> snd (getOrCreateLoggingState l cfg par states) k = states k"
  by (cases "states l") (simp_all add: getOrCreateLoggingState_def Let_def)

lemma processDomLoggable_parentState:
  assumes "loggingStates (fst acc) k = Some old"
  shows "\<exists>st. loggingStates (fst (processDomLoggable ve inp acc)) k = Some st
           \<and> parentState st = parentState old"
proof -
  let ?e = "dl_element inp"
  obtain st0 states0 where g: "getOrCreateLoggingState ?e (dl_config inp) (dl_parent inp)
      (loggingStates (fst acc)) = (st0, states0)" by fastforce
  obtain st1 v1 where i: "impressionBlock inp states0 st0 (snd acc) = (st1, v1)" by fastforce
  obtain st2 inst where l: "listenerBlock inp st1 (installed (fst acc)) = (st2, inst)"
    by fastforce
  define st3 where "st3 = debuggingBlock ve inp states0 st2"
  have r: "loggingStates (fst (processDomLoggable ve inp acc)) = states0(?e \<mapsto> st3)"
    unfolding processDomLoggable_def using g i l
    by (simp add: Let_def st3_def)
  have p3: "parentState st3 = parentState st0"
    using impressionBlock_parentState[of inp states0 st0 "snd acc"]
      listenerBlock_parentState[of inp st1 "installed (fst acc)"] i l
    by (simp add: st3_def debuggingBlock_parentState)
  show ?thesis
  proof (cases "k = ?e")
    case True
    with assms g have "st0 = old" by (simp add: getOrCreateLoggingState_cached)
    with True p3 show ?thesis by (simp add: r)
  next
    case False
    with getOrCreateLoggingState_others[OF False, of "dl_config inp" "dl_parent inp"
        "loggingStates (fst acc)"] g assms
    show ?thesis by (simp add: r)
  qed
qed

lemma processNonDomLoggable_parentState:
  assumes "loggingStates (fst acc) k = Some old"
  shows "\<exists>st. loggingStates (fst (processNonDomLoggable inp acc)) k = Some st
           \<and> parentState st = parentState old"
proof -
  let ?e = "nl_loggable inp"
  obtain st0 states0 where g: "getOrCreateLoggingState ?e (nl_config inp) (nl_parent inp)
      (loggingStates (fst acc)) = (st0, states0)" by fastforce
  have r: "loggingStates (fst (processNonDomLoggable inp acc)) = states0
      \<or> loggingStates (fst (processNonDomLoggable inp acc))
           = states0(?e \<mapsto> st0\<lparr>impressionLogged := True\<rparr>)"
    unfolding processNonDomLoggable_def using g by (simp add: Let_def)
  show ?thesis
  proof (cases "k = ?e")
    case True
    with assms g have "st0 = old" "states0 = loggingStates (fst acc)"
      by (simp_all add: getOrCreateLoggingState_cached)
    with True assms r show ?thesis by auto
  next
    case False
    with getOrCreateLoggingState_others[OF False, of "nl_config inp" "nl_parent inp"
        "loggingStates (fst acc)"] g assms r
    show ?thesis by auto
  qed
qed

lemma parentLogged_kept:
  assumes pl: "parentLogged s l"
    and st: "\<And>old. loggingStates s l = Some old \<Longrightarrow>
               \<exists>st. loggingStates s' l = Some st \<and> parentState st = parentState old"
    and mono: "\<And>k. impressionFlag s k \<Longrightarrow> impressionFlag s' k"
  shows "parentLogged s' l"
proof -
  from pl obtain old where old: "loggingStates s l = Some old"
    and par: "case parentState old of None \<Rightarrow> True | Some p \<Rightarrow> impressionFlag s p"
    by (auto simp: parentLogged_def split: option.splits)
  from st[OF old] obtain st' where "loggingStates s' l = Some st'"
    "parentState st' = parentState old" by blast
  with par mono show ?thesis
    by (auto simp: parentLogged_def split: option.splits)
qed

lemma processDomLoggable_logged:
  assumes "impressionFlag (fst acc) l" "parentLogged (fst acc) l"
  shows "impressionFlag (fst (processDomLoggable ve inp acc)) l
       \<and> parentLogged (fst (processDomLoggable ve inp acc)) l
       \<and> count_list (snd (processDomLoggable ve inp acc)) l = count_list (snd acc) l
       \<and> unregistered (fst (processDomLoggable ve inp acc)) = unregistered (fst acc)"
proof -
  obtain s v where acc: "acc = (s, v)" by (cases acc)
  have mono: "\<And>k. impressionFlag (fst acc) k \<Longrightarrow> impressionFlag (fst (processDomLoggable ve inp acc)) k"
    using processDomLoggable_inv[OF refl, where ve = ve and inp = inp and acc = acc] by blast
  have pl: "parentLogged (fst (processDomLoggable ve inp acc)) l"
    by (rule parentLogged_kept[OF assms(2) processDomLoggable_parentState mono])
  from processDomLoggable_shape[of ve inp s v]
  obtain st ls where
    "loggingStates (fst (processDomLoggable ve inp (s, v)))
       = (loggingStates s)(dl_element inp \<mapsto> st)"
    and "processed st"
    and "impressionBatches (fst (processDomLoggable ve inp (s, v))) = impressionBatches s"
    and u: "unregistered (fst (processDomLoggable ve inp (s, v))) = unregistered s"
    and "installed (fst (processDomLoggable ve inp (s, v)))
         = installed s @ (if processedFlag s (dl_element inp) then [] else [(dl_element inp, ls)])"
    and vv: "if impressionFlag s (dl_element inp)
         then impressionLogged st \<and> snd (processDomLoggable ve inp (s, v)) = v
         else (impressionLogged st \<and> snd (processDomLoggable ve inp (s, v)) = v @ [dl_element inp])
              \<or> (\<not> impressionLogged st \<and> snd (processDomLoggable ve inp (s, v)) = v)"
    by blast
  have "count_list (snd (processDomLoggable ve inp (s, v))) l = count_list v l"
    using vv assms(1) unfolding acc by (cases "dl_element inp = l") (auto split: if_splits)
  with mono[OF assms(1)] pl u show ?thesis unfolding acc by simp
qed

lemma processNonDomLoggable_logged:
  assumes "impressionFlag (fst acc) l" "parentLogged (fst acc) l"
  shows "impressionFlag (fst (processNonDomLoggable inp acc)) l
       \<and> parentLogged (fst (processNonDomLoggable inp acc)) l
       \<and> count_list (snd (processNonDomLoggable inp acc)) l
           = count_list (snd acc) l + (if nl_loggable inp = l then 1 else 0)
       \<and> count_list (unregistered (fst (processNonDomLoggable inp acc))) l
           = count_list (unregistered (fst acc)) l + (if nl_loggable inp = l then 1 else 0)"
proof -
  let ?e = "nl_loggable inp"
  have mono: "\<And>k. impressionFlag (fst acc) k \<Longrightarrow> impressionFlag (fst (processNonDomLoggable inp acc)) k"
    using processNonDomLoggable_inv[OF refl, where inp = inp and acc = acc] by blast
  have pl: "parentLogged (fst (processNonDomLoggable inp acc)) l"
    by (rule parentLogged_kept[OF assms(2) processNonDomLoggable_parentState mono])
  obtain st0 states0 where g: "getOrCreateLoggingState ?e (nl_config inp) (nl_parent inp)
      (loggingStates (fst acc)) = (st0, states0)" by fastforce
  have counts: "count_list (snd (processNonDomLoggable inp acc)) l
           = count_list (snd acc) l + (if ?e = l then 1 else 0)
       \<and> count_list (unregistered (fst (processNonDomLoggable inp acc))) l
           = count_list (unregistered (fst acc)) l + (if ?e = l then 1 else 0)"
  proof (cases "?e = l")
    case True
    from assms obtain old where old: "loggingStates (fst acc) l = Some old"
      and par: "case parentState old of None \<Rightarrow> True | Some p \<Rightarrow> impressionFlag (fst acc) p"
      by (auto simp: parentLogged_def split: option.splits)
    from g old True have s0: "st0 = old" "states0 = loggingStates (fst acc)"
      by (simp_all add: getOrCreateLoggingState_cached)
    have "parentImpressionLogged states0 st0"
      using par unfolding s0 parentImpressionLogged_def impressionFlag_def
      by (auto split: option.splits)
    then show ?thesis
      unfolding processNonDomLoggable_def using g True by (simp add: Let_def)
  next
    case False
    then show ?thesis
      unfolding processNonDomLoggable_def using g
      by (cases "parentImpressionLogged states0 st0") (simp_all add: Let_def)
  qed
  with mono[OF assms(1)] pl show ?thesis by simp
qed

lemma fold_processDomLoggable_logged:
  assumes "impressionFlag (fst acc) l" "parentLogged (fst acc) l"
  shows "impressionFlag (fst (fold (processDomLoggable ve) inps acc)) l
       \<and> parentLogged (fst (fold (processDomLoggable ve) inps acc)) l
       \<and> count_list (snd (fold (processDomLoggable ve) inps acc)) l = count_list (snd acc) l
       \<and> unregistered (fst (fold (processDomLoggable ve) inps acc)) = unregistered (fst acc)"
  using assms
proof (induction inps arbitrary: acc)
  case Nil
  then show ?case by simp
next
  case (Cons inp inps)
  from processDomLoggable_logged[OF Cons.prems, of ve inp]
  have a: "impressionFlag (fst (processDomLoggable ve inp acc)) l"
    and b: "parentLogged (fst (processDomLoggable ve inp acc)) l"
    and c: "count_list (snd (processDomLoggable ve inp acc)) l = count_list (snd acc) l"
    and d: "unregistered (fst (processDomLoggable ve inp acc)) = unregistered (fst acc)"
    by blast+
  from Cons.IH[OF a b] show ?case by (simp add: c d)
qed

lemma fold_processNonDomLoggable_logged:
  assumes "impressionFlag (fst acc) l" "parentLogged (fst acc) l"
  shows "count_list (snd (fold processNonDomLoggable inps acc)) l
           = count_list (snd acc) l + count_list (map nl_loggable inps) l
       \<and> count_list (unregistered (fst (fold processNonDomLoggable inps acc))) l
           = count_list (unregistered (fst acc)) l + count_list (map nl_loggable inps) l"
  using assms
proof (induction inps arbitrary: acc)
  case Nil
  then show ?case by simp
next
  case (Cons inp inps)
  from processNonDomLoggable_logged[OF Cons.prems, of inp]
  have a: "impressionFlag (fst (processNonDomLoggable inp acc)) l"
    and b: "parentLogged (fst (processNonDomLoggable inp acc)) l"
    and c: "count_list (snd (processNonDomLoggable inp acc)) l
           = count_list (snd acc) l + (if nl_loggable inp = l then 1 else 0)"
    and d: "count_list (unregistered (fst (processNonDomLoggable inp acc))) l
           = count_list (unregistered (fst acc)) l + (if nl_loggable inp = l then 1 else 0)"
    by blast+
  from Cons.IH[OF a b] show ?case by (simp add: c d)
qed

lemma fold_processDomLoggable_batches:
  "impressionBatches (fst (fold (processDomLoggable ve) inps acc)) = impressionBatches (fst acc)"
proof (induction inps arbitrary: acc)
  case Nil
  show ?case by simp
next
  case (Cons inp inps)
  have "impressionBatches (fst (processDomLoggable ve inp acc)) = impressionBatches (fst acc)"
    using processDomLoggable_shape[of ve inp "fst acc" "snd acc"] by auto
  with Cons.IH[of "processDomLoggable ve inp acc"] show ?case by simp
qed

lemma fold_processNonDomLoggable_batches:
  "impressionBatches (fst (fold processNonDomLoggable inps acc)) = impressionBatches (fst acc)"
proof (induction inps arbitrary: acc)
  case Nil
  show ?case by simp
next
  case (Cons inp inps)
  have "impressionBatches (fst (processNonDomLoggable inp acc)) = impressionBatches (fst acc)"
    using processNonDomLoggable_shape[of inp "fst acc" "snd acc"] by auto
  with Cons.IH[of "processNonDomLoggable inp acc"] show ?case by simp
qed

lemma observeMutations_unregistered:
  "unregistered (observeMutations roots s) = unregistered s"
  by (induction roots arbitrary: s) auto

lemma process_logged_again:
  assumes "\<not> documentHidden inp" "impressionFlag s l" "parentLogged s l"
  shows "impressions (process inp s) l
           = impressions s l + count_list (map nl_loggable (nonDomLoggables inp)) l
       \<and> count_list (unregistered (process inp s)) l
           = count_list (unregistered s) l + count_list (map nl_loggable (nonDomLoggables inp)) l"
proof -
  define s1 where "s1 = observeMutations (shadowRoots inp) s"
  define acc1 where "acc1 = fold (processDomLoggable (veDebuggingEnabled inp)) (domLoggables inp) (s1, [])"
  define acc2 where "acc2 = fold processNonDomLoggable (nonDomLoggables inp) acc1"
  have p: "process inp s = (fst acc2)\<lparr>impressionBatches := impressionBatches (fst acc2) @ [snd acc2]\<rparr>"
    using assms(1) by (simp add: process_def Let_def s1_def acc1_def acc2_def)
  have f1: "impressionFlag (fst (s1, [])) l" "parentLogged (fst (s1, [])) l"
    using assms(2,3)
    by (auto simp: s1_def parentLogged_def observeMutations_counts observeMutations_fields
        split: option.splits)
  from fold_processDomLoggable_logged[OF f1, of "veDebuggingEnabled inp" "domLoggables inp"]
  have a1: "impressionFlag (fst acc1) l" "parentLogged (fst acc1) l"
    and c1: "count_list (snd acc1) l = 0"
    and u1: "unregistered (fst acc1) = unregistered s"
    by (simp_all add: acc1_def s1_def observeMutations_unregistered)
  have b1: "impressions (fst acc1) l = impressions s l"
    using fold_processDomLoggable_batches[of "veDebuggingEnabled inp" "domLoggables inp" "(s1, [])"]
    by (simp add: acc1_def impressions_def s1_def observeMutations_fields)
  have b2: "impressions (fst acc2) l = impressions (fst acc1) l"
    using fold_processNonDomLoggable_batches[of "nonDomLoggables inp" acc1]
    by (simp add: acc2_def impressions_def)
  from fold_processNonDomLoggable_logged[OF a1, of "nonDomLoggables inp"]
  have c2: "count_list (snd acc2) l = count_list (map nl_loggable (nonDomLoggables inp)) l"
    and u2: "count_list (unregistered (fst acc2)) l
        = count_list (unregistered s) l + count_list (map nl_loggable (nonDomLoggables inp)) l"
    by (simp_all add: acc2_def c1 u1)
  show ?thesis
    unfolding p using b1 b2 c2 u2 by (simp add: impressions_def)
qed

lemmas process_defs = process_def processDomLoggable_def processNonDomLoggable_def
  getOrCreateLoggingState_def impressionBlock_def listenerBlock_def debuggingBlock_def
  parentImpressionLogged_def parentSelectOpen_def listenersFor_def Let_def

lemma ex_nondom_run_once:
  "process ex_nondom_run initial_driver =
     initial_driver\<lparr>loggingStates := [7 \<mapsto> \<lparr>impressionLogged = True, processed = False,
          processedForDebugging = False, config = \<lparr>track = Map.empty\<rparr>, parentState = None,
          overlapSize = None, selectOpen = False\<rparr>],
        impressionBatches := [[7]], unregistered := [7]\<rparr>"
  by (simp add: process_defs ex_nondom_run_def initial_driver_def)

lemma ex_nondom_run_twice:
  "impressionBatches (process ex_nondom_run (process ex_nondom_run initial_driver)) = [[7], [7]]"
  by (simp add: ex_nondom_run_once) (simp add: process_defs ex_nondom_run_def initial_driver_def)

lemma ex_dom_run_once:
  "process ex_dom_run initial_driver =
     initial_driver\<lparr>loggingStates := [3 \<mapsto> \<lparr>impressionLogged = True, processed = True,
          processedForDebugging = False, config = \<lparr>track = [''click'' \<mapsto> '''']\<rparr>,
          parentState = None, overlapSize = Some (10, 10), selectOpen = False\<rparr>],
        impressionBatches := [[3]], installed := [(3, [''click''])]\<rparr>"
  by (simp add: process_defs ex_dom_run_def initial_driver_def)

lemma ex_dom_run_twice:
  "impressionBatches (process ex_dom_run (process ex_dom_run initial_driver)) = [[3], []]"
  "installed (process ex_dom_run (process ex_dom_run initial_driver)) = [(3, [''click''])]"
  by (simp_all add: ex_dom_run_once)
     (simp_all add: process_defs ex_dom_run_def initial_driver_def)

text \<open>
  Claim C7, as stated, fails on the non-DOM path: that loop does not read
  \<open>impressionLogged\<close>. A non-DOM loggable that \<open>getNonDomState()\<close> lists in two runs (it was
  registered again after the first run had logged and unregistered it) is handed to
  \<open>logImpressions\<close> in both, although the first run has set its flag.
\<close>

theorem process_nondom_logged_twice_counterexample:
  "impressionFlag (process ex_nondom_run initial_driver) 7
   \<and> impressionBatches (fold process [ex_nondom_run, ex_nondom_run] initial_driver) = [[7], [7]]
   \<and> impressions (fold process [ex_nondom_run, ex_nondom_run] initial_driver) 7 = 2"
  by (simp add: ex_nondom_run_twice impressions_def)
     (simp add: ex_nondom_run_once impressionFlag_def)

text \<open>
  Claim C7, amended. Over any sequence of runs of \<open>process\<close>, on any inputs: a flag
  \<open>impressionLogged\<close> or \<open>processed\<close> that is set stays set; the listener block of a
  loggable runs at most once, and not at all when \<open>processed\<close> was set before; and a
  loggable is handed to \<open>logImpressions\<close> at most once through the DOM loop (not at all when
  \<open>impressionLogged\<close> was set before), plus at most once for each time the non-DOM registry
  lists it in these runs. The non-DOM loop does not read the flag: in a run on a document
  that is not hidden, a loggable whose \<open>impressionLogged\<close> is already set and whose parent
  state is absent or logged is handed to \<open>logImpressions\<close> exactly once for every listing
  of it in \<open>getNonDomState().loggables\<close>, and to \<open>unregisterLoggable\<close> as often.
\<close>

theorem process_flags_monotone:
  "(impressionFlag s l \<longrightarrow> impressionFlag (fold process inps s) l)
   \<and> (processedFlag s l \<longrightarrow> processedFlag (fold process inps s) l)
   \<and> impressions (fold process inps s) l
       \<le> impressions s l + (if impressionFlag s l then 0 else 1) + registryListings inps l
   \<and> installations (fold process inps s) l
       \<le> installations s l + (if processedFlag s l then 0 else 1)
   \<and> (\<not> documentHidden inp \<and> impressionFlag s l \<and> parentLogged s l \<longrightarrow>
        impressions (process inp s) l
          = impressions s l + count_list (map nl_loggable (nonDomLoggables inp)) l
        \<and> count_list (unregistered (process inp s)) l
          = count_list (unregistered s) l
            + count_list (map nl_loggable (nonDomLoggables inp)) l)"
proof -
  have inv: "(impressionFlag s l \<longrightarrow> impressionFlag (fold process inps s) l)
     \<and> (processedFlag s l \<longrightarrow> processedFlag (fold process inps s) l)
     \<and> impressions (fold process inps s) l
           + (if impressionFlag (fold process inps s) l then 0 else 1)
         \<le> impressions s l + (if impressionFlag s l then 0 else 1) + registryListings inps l
     \<and> installations (fold process inps s) l
           + (if processedFlag (fold process inps s) l then 0 else 1)
         \<le> installations s l + (if processedFlag s l then 0 else 1)"
  proof (induction inps arbitrary: s)
    case Nil
    show ?case by (simp add: registryListings_def)
  next
    case (Cons inp inps)
    have reg: "registryListings (inp # inps) l
        = count_list (map nl_loggable (nonDomLoggables inp)) l + registryListings inps l"
      by (simp add: registryListings_def)
    from process_inv[where s = s and k = l and inp = inp] Cons.IH[of "process inp s"]
    show ?case unfolding reg by (simp only: fold_simps) linarith
  qed
  have again: "\<not> documentHidden inp \<and> impressionFlag s l \<and> parentLogged s l \<longrightarrow>
        impressions (process inp s) l
          = impressions s l + count_list (map nl_loggable (nonDomLoggables inp)) l
        \<and> count_list (unregistered (process inp s)) l
          = count_list (unregistered s) l
            + count_list (map nl_loggable (nonDomLoggables inp)) l"
    using process_logged_again[of inp s l] by blast
  from inv have "(impressionFlag s l \<longrightarrow> impressionFlag (fold process inps s) l)
     \<and> (processedFlag s l \<longrightarrow> processedFlag (fold process inps s) l)
     \<and> impressions (fold process inps s) l
         \<le> impressions s l + (if impressionFlag s l then 0 else 1) + registryListings inps l
     \<and> installations (fold process inps s) l
         \<le> installations s l + (if processedFlag s l then 0 else 1)"
    by linarith
  with again show ?thesis by blast
qed

theorem process_flags_monotone_witness:
  "impressionFlag (process ex_dom_run initial_driver) 3
   \<and> processedFlag (process ex_dom_run initial_driver) 3
   \<and> impressionFlag (fold process [ex_dom_run] (process ex_dom_run initial_driver)) 3
   \<and> processedFlag (fold process [ex_dom_run] (process ex_dom_run initial_driver)) 3
   \<and> impressions (fold process [ex_dom_run] (process ex_dom_run initial_driver)) 3 \<le> 1
   \<and> installations (fold process [ex_dom_run] (process ex_dom_run initial_driver)) 3 \<le> 1
   \<and> \<not> documentHidden ex_nondom_run
   \<and> impressionFlag (process ex_nondom_run initial_driver) 7
   \<and> parentLogged (process ex_nondom_run initial_driver) 7
   \<and> impressions (process ex_nondom_run (process ex_nondom_run initial_driver)) 7 = 2
   \<and> count_list (unregistered (process ex_nondom_run (process ex_nondom_run initial_driver))) 7
       = 2"
proof -
  have f: "impressionFlag (process ex_dom_run initial_driver) 3"
      "processedFlag (process ex_dom_run initial_driver) 3"
    and c: "impressions (process ex_dom_run initial_driver) 3 = 1"
      "installations (process ex_dom_run initial_driver) 3 = 1"
    by (simp_all add: ex_dom_run_once impressionFlag_def processedFlag_def impressions_def
        installations_def)
  have r: "registryListings [ex_dom_run] 3 = 0"
    by (simp add: registryListings_def ex_dom_run_def)
  have h1: "\<not> documentHidden ex_nondom_run"
    and n3: "count_list (map nl_loggable (nonDomLoggables ex_nondom_run)) 7 = 1"
    by (simp_all add: ex_nondom_run_def)
  have h2: "impressionFlag (process ex_nondom_run initial_driver) 7"
      "parentLogged (process ex_nondom_run initial_driver) 7"
    and n12: "impressions (process ex_nondom_run initial_driver) 7 = 1"
      "count_list (unregistered (process ex_nondom_run initial_driver)) 7 = 1"
    by (simp_all add: ex_nondom_run_once impressionFlag_def parentLogged_def impressions_def)
  note h = h1 h2 and n = n12 n3
  from process_flags_monotone
    [of "process ex_dom_run initial_driver" 3 "[ex_dom_run]" ex_dom_run] f c r
  have d: "impressionFlag (fold process [ex_dom_run] (process ex_dom_run initial_driver)) 3"
    "processedFlag (fold process [ex_dom_run] (process ex_dom_run initial_driver)) 3"
    "impressions (fold process [ex_dom_run] (process ex_dom_run initial_driver)) 3 \<le> 1"
    "installations (fold process [ex_dom_run] (process ex_dom_run initial_driver)) 3 \<le> 1"
    by simp_all
  from process_flags_monotone
    [of "process ex_nondom_run initial_driver" 7 "[]" ex_nondom_run] h
  have "impressions (process ex_nondom_run (process ex_nondom_run initial_driver)) 7
          = impressions (process ex_nondom_run initial_driver) 7
            + count_list (map nl_loggable (nonDomLoggables ex_nondom_run)) 7"
    and "count_list (unregistered (process ex_nondom_run (process ex_nondom_run initial_driver))) 7
          = count_list (unregistered (process ex_nondom_run initial_driver)) 7
            + count_list (map nl_loggable (nonDomLoggables ex_nondom_run)) 7"
    by blast+
  then have e: "impressions (process ex_nondom_run (process ex_nondom_run initial_driver)) 7 = 2"
    "count_list (unregistered (process ex_nondom_run (process ex_nondom_run initial_driver))) 7 = 2"
    by (simp_all only: n)
  from f d h e show ?thesis by blast
qed

subsection \<open>Array utilities\<close>

lemma js_slice_append_mid:
  "length P = a \<Longrightarrow> length W = b - a \<Longrightarrow> a \<le> b \<Longrightarrow> js_slice (P @ W @ S) a b = W"
  by (simp add: js_slice_def)

lemma length_js_slice: "length (js_slice xs a b) = min (b - a) (length xs - a)"
  by (simp add: js_slice_def)

lemma sort_permuted: "mset xs = mset ys \<Longrightarrow> sort xs = sort (ys :: 'a::linorder list)"
  by (rule properties_for_sort) simp_all

text \<open>The five parts of the result and their lengths.\<close>

lemma sortRange_parts:
  fixes array :: "'a::linorder list"
  assumes len: "\<And>zs :: 'a list. length (arrange zs) = length zs"
    and v: "left \<le> wl" "wl \<le> wr" "wr \<le> right" "right < length array"
  obtains A B W C D where
    "sortRange arrange array left right wl wr = A @ B @ W @ C @ D"
    "A = take left array" "length A = left"
    "B = arrange (js_slice (sort (js_slice array left (right + 1))) 0 (wl - left))"
    "length B = wl - left"
    "W = js_slice (sort (js_slice array left (right + 1))) (wl - left) (wr + 1 - left)"
    "length W = wr + 1 - wl"
    "C = arrange (js_slice (sort (js_slice array left (right + 1))) (wr + 1 - left)
           (right + 1 - left))"
    "length C = right - wr"
    "D = drop (right + 1) array"
proof -
  have m: "length (sort (js_slice array left (right + 1))) = right + 1 - left"
    using v by (simp add: length_js_slice)
  show thesis
  proof (rule that[OF _ refl _ refl _ refl _ refl _ refl])
    show "sortRange arrange array left right wl wr =
      take left array
      @ arrange (js_slice (sort (js_slice array left (right + 1))) 0 (wl - left))
      @ js_slice (sort (js_slice array left (right + 1))) (wl - left) (wr + 1 - left)
      @ arrange (js_slice (sort (js_slice array left (right + 1))) (wr + 1 - left)
           (right + 1 - left))
      @ drop (right + 1) array"
      by (simp add: sortRange_def Let_def) (simp add: js_slice_def)
    show "length (take left array) = left" using v by simp
    show "length (arrange (js_slice (sort (js_slice array left (right + 1))) 0 (wl - left)))
        = wl - left"
      using v by (simp add: len length_js_slice m)
    show "length (js_slice (sort (js_slice array left (right + 1))) (wl - left) (wr + 1 - left))
        = wr + 1 - wl"
      using v by (simp add: length_js_slice m)
    show "length (arrange (js_slice (sort (js_slice array left (right + 1))) (wr + 1 - left)
           (right + 1 - left))) = right - wr"
      using v by (simp add: len length_js_slice m)
  qed
qed

lemma sortRange_length:
  fixes array :: "'a::linorder list"
  assumes "\<And>zs :: 'a list. length (arrange zs) = length zs"
    and "left \<le> wl" "wl \<le> wr" "wr \<le> right" "right < length array"
  shows "length (sortRange arrange array left right wl wr) = length array"
proof -
  from assms obtain A B W C D where
    "sortRange arrange array left right wl wr = A @ B @ W @ C @ D"
    "length A = left" "length B = wl - left" "length W = wr + 1 - wl" "length C = right - wr"
    "D = drop (right + 1) array"
    by (rule sortRange_parts)
  then show ?thesis using assms(2-) by simp
qed

lemma sortRange_outside:
  fixes array :: "'a::linorder list"
  assumes "\<And>zs :: 'a list. length (arrange zs) = length zs"
    and "left \<le> wl" "wl \<le> wr" "wr \<le> right" "right < length array"
    and "i < length array" "i < left \<or> right < i"
  shows "sortRange arrange array left right wl wr ! i = array ! i"
proof -
  from assms(1-5) obtain A B W C D where
    r: "sortRange arrange array left right wl wr = A @ B @ W @ C @ D"
    and A: "A = take left array" "length A = left"
    and l: "length B = wl - left" "length W = wr + 1 - wl" "length C = right - wr"
    and D: "D = drop (right + 1) array"
    by (rule sortRange_parts)
  from assms(7) show ?thesis
  proof
    assume "i < left"
    then have "(A @ B @ W @ C @ D) ! i = A ! i"
      using A(2) by (simp add: nth_append)
    also have "A ! i = array ! i"
      using \<open>i < left\<close> by (simp add: A(1))
    finally show ?thesis by (simp add: r)
  next
    assume "right < i"
    have "(A @ B @ W @ C) @ D = A @ B @ W @ C @ D" by simp
    moreover have "length (A @ B @ W @ C) = right + 1"
      using A l assms(2-5) by simp
    ultimately have "(A @ B @ W @ C @ D) ! i = D ! (i - (right + 1))"
      using \<open>right < i\<close> by (metis Suc_eq_plus1 Suc_leI leD nth_append)
    then show ?thesis using \<open>right < i\<close> assms(6) by (simp add: r D)
  qed
qed

lemma sortRange_window:
  fixes array :: "'a::linorder list"
  assumes "\<And>zs :: 'a list. length (arrange zs) = length zs"
    and "left \<le> wl" "wl \<le> wr" "wr \<le> right" "right < length array"
  shows "js_slice (sortRange arrange array left right wl wr) wl (wr + 1)
       = js_slice (sort (js_slice array left (right + 1))) (wl - left) (wr + 1 - left)"
proof -
  from assms(1-5) obtain A B W C D where
    r: "sortRange arrange array left right wl wr = A @ B @ W @ C @ D"
    and A: "length A = left"
    and l: "length B = wl - left" "length W = wr + 1 - wl"
    and W: "W = js_slice (sort (js_slice array left (right + 1))) (wl - left) (wr + 1 - left)"
    by (rule sortRange_parts)
  have "js_slice ((A @ B) @ W @ C @ D) wl (wr + 1) = W"
    using A l assms(2-5) by (intro js_slice_append_mid) simp_all
  then show ?thesis by (simp add: r W)
qed

lemma sortRange_rest:
  fixes array :: "'a::linorder list"
  assumes "\<And>zs :: 'a list. length (arrange zs) = length zs"
    and "left \<le> wl" "wl \<le> wr" "wr \<le> right" "right < length array"
  shows "js_slice (sortRange arrange array left right wl wr) left wl
       = arrange (js_slice (sort (js_slice array left (right + 1))) 0 (wl - left))"
    and "js_slice (sortRange arrange array left right wl wr) (wr + 1) (right + 1)
       = arrange (js_slice (sort (js_slice array left (right + 1))) (wr + 1 - left)
           (right + 1 - left))"
proof -
  from assms(1-5) obtain A B W C D where
    r: "sortRange arrange array left right wl wr = A @ B @ W @ C @ D"
    and A: "length A = left"
    and l: "length B = wl - left" "length W = wr + 1 - wl" "length C = right - wr"
    and B: "B = arrange (js_slice (sort (js_slice array left (right + 1))) 0 (wl - left))"
    and C: "C = arrange (js_slice (sort (js_slice array left (right + 1))) (wr + 1 - left)
           (right + 1 - left))"
    by (rule sortRange_parts)
  have "js_slice (A @ B @ (W @ C @ D)) left wl = B"
    using A l assms(2-5) by (intro js_slice_append_mid) simp_all
  then show "js_slice (sortRange arrange array left right wl wr) left wl
       = arrange (js_slice (sort (js_slice array left (right + 1))) 0 (wl - left))"
    by (simp add: r B)
  have "js_slice ((A @ B @ W) @ C @ D) (wr + 1) (right + 1) = C"
    using A l assms(2-5) by (intro js_slice_append_mid) simp_all
  then show "js_slice (sortRange arrange array left right wl wr) (wr + 1) (right + 1)
       = arrange (js_slice (sort (js_slice array left (right + 1))) (wr + 1 - left)
           (right + 1 - left))"
    by (simp add: r C)
qed


lemma arrange_length:
  assumes "\<And>zs :: 'a list. mset (arrange zs) = mset zs"
  shows "length (arrange zs) = length (zs :: 'a list)"
  using assms[of zs] by (rule mset_eq_length)

text \<open>
  Claim C2. For every array, total order and valid indices
  \<open>left \<le> first \<le> first + count - 1 \<le> right < length\<close>, after
  \<open>sortRange(array, comparator, left, right, first, first + count - 1)\<close> the slice
  \<open>array[first .. first + count - 1]\<close> equals the corresponding slice of the fully sorted
  subarray \<open>array[left .. right]\<close>, and the remaining elements of \<open>array[left .. right]\<close>
  are a permutation of the remaining elements of that sorted subarray.
\<close>

theorem sortRange_window_sorted:
  fixes array :: "'a::linorder list"
  assumes perm: "\<And>zs :: 'a list. mset (arrange zs) = mset zs"
    and v: "left \<le> first" "1 \<le> cnt" "first + cnt - 1 \<le> right" "right < length array"
  shows "js_slice (sortRange arrange array left right first (first + cnt - 1)) first (first + cnt)
           = js_slice (sort (js_slice array left (right + 1))) (first - left) (first - left + cnt)
       \<and> mset (js_slice (sortRange arrange array left right first (first + cnt - 1)) left first
               @ js_slice (sortRange arrange array left right first (first + cnt - 1))
                   (first + cnt) (right + 1))
           = mset (js_slice (sort (js_slice array left (right + 1))) 0 (first - left)
               @ js_slice (sort (js_slice array left (right + 1))) (first - left + cnt)
                   (right + 1 - left))"
proof -
  have len: "\<And>zs :: 'a list. length (arrange zs) = length zs"
    by (rule arrange_length[OF perm])
  define wr where "wr = first + cnt - 1"
  have w: "first \<le> wr" "wr \<le> right"
    and e: "first + cnt = wr + 1" "first - left + cnt = wr + 1 - left"
    using v by (simp_all add: wr_def)
  from sortRange_window[OF len v(1) w v(4)] sortRange_rest[OF len v(1) w v(4)]
  show ?thesis
    unfolding wr_def[symmetric] unfolding e by (simp add: perm)
qed

text \<open>
  Claim C6. For all valid index arguments
  \<open>left \<le> sortWindowLeft \<le> sortWindowRight \<le> right < length\<close>, \<open>sortRange\<close> keeps the
  length of the array and leaves every element at an index outside \<open>[left, right]\<close>
  unchanged.
\<close>

theorem sortRange_frame:
  fixes array :: "'a::linorder list"
  assumes perm: "\<And>zs :: 'a list. mset (arrange zs) = mset zs"
    and v: "left \<le> sortWindowLeft" "sortWindowLeft \<le> sortWindowRight"
      "sortWindowRight \<le> right" "right < length array"
  shows "length (sortRange arrange array left right sortWindowLeft sortWindowRight) = length array
       \<and> (\<forall>i < length array. i < left \<or> right < i \<longrightarrow>
             sortRange arrange array left right sortWindowLeft sortWindowRight ! i = array ! i)"
proof -
  have len: "\<And>zs :: 'a list. length (arrange zs) = length zs"
    by (rule arrange_length[OF perm])
  show ?thesis
    using sortRange_length[OF len v] sortRange_outside[OF len v] by blast
qed

lemma sortRange_passes_asserts:
  fixes array :: "'a::linorder list"
  assumes perm: "\<And>zs :: 'a list. mset (arrange zs) = mset zs"
    and v: "left \<le> first" "1 \<le> cnt" "first + cnt - 1 \<le> right" "right < length array"
  shows "sortRange_asserts array (sortRange arrange array left right first (first + cnt - 1))
           left right first cnt"
proof -
  define wr where "wr = first + cnt - 1"
  define actual where "actual = sortRange arrange array left right first wr"
  define middle where "middle = sort (js_slice array left (right + 1))"
  have len: "\<And>zs :: 'a list. length (arrange zs) = length zs"
    by (rule arrange_length[OF perm])
  have w: "first \<le> wr" "wr \<le> right"
    and e: "first + cnt = wr + 1" "first - left + cnt = wr + 1 - left"
    using v by (simp_all add: wr_def)
  from len v(1) w v(4) obtain A B W C D where
    r: "actual = A @ B @ W @ C @ D"
    and A: "A = take left array" "length A = left"
    and l: "length B = first - left" "length W = wr + 1 - first" "length C = right - wr"
    and D: "D = drop (right + 1) array"
    unfolding actual_def by (rule sortRange_parts)
  have m: "length middle = right + 1 - left"
    using v by (simp add: middle_def length_js_slice)
  have "take left (A @ B @ W @ C @ D) = A"
    using A(2) by simp
  then have "take left actual = take left array"
    by (simp only: r A(1))
  then have 1: "js_slice array 0 left = js_slice actual 0 left"
    by (simp add: js_slice_def)
  have "length (A @ B @ W @ C) = right + 1"
    using A(2) l v(1) w by simp
  then have "drop (right + 1) ((A @ B @ W @ C) @ D) = D"
    by (simp only: append_eq_conv_conj drop_append) simp
  then have 2: "drop (right + 1) array = drop (right + 1) actual"
    unfolding r D[symmetric] by simp
  have 3: "js_slice middle (first - left) (wr + 1 - left) = js_slice actual first (wr + 1)"
    unfolding actual_def middle_def
    by (rule sortRange_window[OF len v(1) w v(4), symmetric])
  have tail: "js_slice middle (wr + 1 - left) (right + 1 - left) = drop (wr + 1 - left) middle"
    using m by (simp add: js_slice_def)
  have "js_slice actual (wr + 1) (right + 1) = arrange (drop (wr + 1 - left) middle)"
    unfolding actual_def using sortRange_rest(2)[OF len v(1) w v(4)]
    by (simp only: tail[unfolded middle_def] middle_def)
  then have "sort (js_slice actual (wr + 1) (right + 1)) = sort (drop (wr + 1 - left) middle)"
    by (simp only: sort_permuted[OF perm])
  also have "\<dots> = drop (wr + 1 - left) middle"
    by (simp add: middle_def sorted_sort_id)
  finally have 4: "drop (wr + 1 - left) middle = sort (js_slice actual (wr + 1) (right + 1))"
    by simp
  show ?thesis
    unfolding sortRange_asserts_def Let_def wr_def[symmetric]
    unfolding e actual_def[symmetric] middle_def[symmetric]
    using 1 2 3 4 by blast
qed

lemma sortRange_test_passes:
  fixes fixture :: "'a::linorder list"
  assumes "\<And>zs :: 'a list. mset (arrange zs) = mset zs"
  shows "sortRange_test arrange fixture"
  unfolding sortRange_test_def
proof (intro ballI)
  fix left right first cnt
  assume "left \<in> {0 ..< length fixture - 1}" "right \<in> {left ..< length fixture}"
    "first \<in> {left .. right}" "cnt \<in> {1 .. right - first + 1}"
  then have "left \<le> first" "1 \<le> cnt" "first + cnt - 1 \<le> right" "right < length fixture"
    by auto
  then show "sortRange_asserts fixture
      (sortRange arrange fixture left right first (first + cnt - 1)) left right first cnt"
    by (rule sortRange_passes_asserts[OF assms])
qed

lemma removeElement_absent:
  "element \<notin> set xs \<Longrightarrow> removeElement xs element firstOnly = xs"
  by (induction xs) auto

lemma removeElement_first:
  "element \<in> set xs \<Longrightarrow>
     \<exists>ys zs. xs = ys @ element # zs \<and> element \<notin> set ys
            \<and> removeElement xs element True = ys @ zs"
proof (induction xs)
  case Nil
  then show ?case by simp
next
  case (Cons x xs)
  show ?case
  proof (cases "x = element")
    case True
    then show ?thesis by (intro exI[of _ "[]"] exI[of _ xs]) simp
  next
    case False
    with Cons obtain ys zs where "xs = ys @ element # zs" "element \<notin> set ys"
      "removeElement xs element True = ys @ zs" by auto
    with False show ?thesis by (intro exI[of _ "x # ys"] exI[of _ zs]) simp
  qed
qed

lemma removeElement_all:
  "removeElement xs element False = filter (\<lambda>x. x \<noteq> element) xs"
  by (induction xs) auto

lemma removeElement_subseq: "subseq (removeElement xs element firstOnly) xs"
  by (induction xs) auto

text \<open>
  Claim C3. For every array and value, \<open>removeElement(array, value, true)\<close> removes
  exactly the first occurrence of the value and leaves the array unchanged when the value
  is absent; \<open>removeElement(array, value, false)\<close> removes every occurrence; in both cases
  the remaining elements keep their relative order (the result is a subsequence of the
  array).
\<close>

theorem removeElement_removes:
  "(element \<notin> set array \<longrightarrow> removeElement array element True = array)
   \<and> (element \<in> set array \<longrightarrow>
        (\<exists>ys zs. array = ys @ element # zs \<and> element \<notin> set ys
           \<and> removeElement array element True = ys @ zs))
   \<and> removeElement array element False = filter (\<lambda>x. x \<noteq> element) array
   \<and> element \<notin> set (removeElement array element False)
   \<and> subseq (removeElement array element firstOnly) array"
  using removeElement_first[of element array]
  by (simp add: removeElement_absent removeElement_all removeElement_subseq)

lemma removeElement_test_cases:
  "removeElement [] (2::int) True = []" "removeElement [] (2::int) False = []"
  "removeElement [1] (2::int) True = [1]" "removeElement [1] (2::int) False = [1]"
  "removeElement [1, 2, 3, 4, 5, 4, 3, 2, 1] (2::int) True = [1, 3, 4, 5, 4, 3, 2, 1]"
  "removeElement [1, 2, 3, 4, 5, 4, 3, 2, 1] (2::int) False = [1, 3, 4, 5, 4, 3, 1]"
  "removeElement [2, 2, 2, 2, 2] (2::int) True = [2, 2, 2, 2]"
  "removeElement [2, 2, 2, 2, 2] (2::int) False = []"
  "removeElement [2, 2, 2, 1, 2, 2, 3, 2] (2::int) True = [2, 2, 1, 2, 2, 3, 2]"
  "removeElement [2, 2, 2, 1, 2, 2, 3, 2] (2::int) False = [1, 3]"
  by simp_all

lemma comparator_order:
  "comparator a b < 0 \<longleftrightarrow> a < b" "comparator a b = 0 \<longleftrightarrow> a = b" "comparator a b > 0 \<longleftrightarrow> a > b"
  by (simp_all add: comparator_def)

lemma rev_rearranges: "mset (rev zs) = mset (zs :: int list)"
  by simp

lemma ex_fixture_sortRange:
  "sortRange rev ex_fixture 1 5 2 3 = [6, 2, 4, 7, 15, 10, 1]"
  by (simp add: sortRange_def js_slice_def Let_def ex_fixture_def)

theorem sortRange_window_sorted_witness:
  "js_slice (sortRange rev ex_fixture 1 5 2 (2 + 2 - 1)) 2 (2 + 2) = [4, 7]
   \<and> mset (js_slice (sortRange rev ex_fixture 1 5 2 (2 + 2 - 1)) 1 2
           @ js_slice (sortRange rev ex_fixture 1 5 2 (2 + 2 - 1)) (2 + 2) (5 + 1))
       = mset [2, 10, 15]"
proof -
  have v: "(1::nat) \<le> 2" "(1::nat) \<le> 2" "(2::nat) + 2 - 1 \<le> 5" "5 < length ex_fixture"
    by (simp_all add: ex_fixture_def)
  have m: "sort (js_slice ex_fixture 1 (5 + 1)) = [2, 4, 7, 10, 15]"
    by (simp add: js_slice_def ex_fixture_def)
  from sortRange_window_sorted[OF rev_rearranges v]
  show ?thesis unfolding m by (simp add: js_slice_def)
qed

theorem sortRange_frame_witness:
  "length (sortRange rev ex_fixture 1 5 2 3) = 7
   \<and> sortRange rev ex_fixture 1 5 2 3 ! 0 = 6
   \<and> sortRange rev ex_fixture 1 5 2 3 ! 6 = 1"
proof -
  have v: "(1::nat) \<le> 2" "(2::nat) \<le> 3" "(3::nat) \<le> 5" "5 < length ex_fixture"
    by (simp_all add: ex_fixture_def)
  have l: "length ex_fixture = 7" "ex_fixture ! 0 = 6" "ex_fixture ! 6 = 1"
    by (simp_all add: ex_fixture_def)
  note f = sortRange_frame[OF rev_rearranges v]
  from f have len: "length (sortRange rev ex_fixture 1 5 2 3) = length ex_fixture"
    by (rule conjunct1)
  from f have out: "\<forall>i < length ex_fixture. i < 1 \<or> 5 < i \<longrightarrow>
           sortRange rev ex_fixture 1 5 2 3 ! i = ex_fixture ! i"
    by (rule conjunct2)
  from out[rule_format, of 0] have a: "sortRange rev ex_fixture 1 5 2 3 ! 0 = ex_fixture ! 0"
    by (simp add: l(1))
  from out[rule_format, of 6] have b: "sortRange rev ex_fixture 1 5 2 3 ! 6 = ex_fixture ! 6"
    by (simp add: l(1))
  show ?thesis using len a b by (simp only: l simp_thms)
qed

theorem removeElement_removes_witness:
  "(2::int) \<in> set [1, 2, 3, 4, 5, 4, 3, 2, 1]
   \<and> (\<exists>ys zs. [1, 2, 3, 4, 5, 4, 3, 2, 1] = ys @ (2::int) # zs \<and> 2 \<notin> set ys
          \<and> removeElement [1, 2, 3, 4, 5, 4, 3, 2, 1] 2 True = ys @ zs)
   \<and> removeElement [1, 2, 3, 4, 5, 4, 3, 2, 1] (2::int) True = [1, 3, 4, 5, 4, 3, 2, 1]
   \<and> removeElement [1, 2, 3, 4, 5, 4, 3, 2, 1] (2::int) False = [1, 3, 4, 5, 4, 3, 1]
   \<and> (9::int) \<notin> set [1, 2, 3, 4, 5, 4, 3, 2, 1]
   \<and> removeElement [1, 2, 3, 4, 5, 4, 3, 2, 1] (9::int) True = [1, 2, 3, 4, 5, 4, 3, 2, 1]
   \<and> subseq (removeElement [1, 2, 3, 4, 5, 4, 3, 2, 1] (2::int) False)
        [1, 2, 3, 4, 5, 4, 3, 2, 1]"
proof -
  have i: "(2::int) \<in> set [1, 2, 3, 4, 5, 4, 3, 2, 1]"
    and n: "(9::int) \<notin> set [1, 2, 3, 4, 5, 4, 3, 2, 1]"
    by simp_all
  from removeElement_removes[of 2 "[1, 2, 3, 4, 5, 4, 3, 2, 1]" False] i
  have a: "\<exists>ys zs. [1, 2, 3, 4, 5, 4, 3, 2, 1] = ys @ (2::int) # zs \<and> 2 \<notin> set ys
          \<and> removeElement [1, 2, 3, 4, 5, 4, 3, 2, 1] 2 True = ys @ zs"
    and b: "subseq (removeElement [1, 2, 3, 4, 5, 4, 3, 2, 1] (2::int) False)
        [1, 2, 3, 4, 5, 4, 3, 2, 1]"
    by blast+
  from removeElement_removes[of 9 "[1, 2, 3, 4, 5, 4, 3, 2, 1]" True] n
  have c: "removeElement [1, 2, 3, 4, 5, 4, 3, 2, 1] (9::int) True = [1, 2, 3, 4, 5, 4, 3, 2, 1]"
    by blast
  show ?thesis
    using i n a b c removeElement_test_cases(5,6) by blast
qed


end
